theory Spec2Isabelle
  imports Main
begin

section \<open>Python values, exceptions and strings\<close>

text \<open>
  The agent passes JSON-like data around: the memory record, the heuristic rules and the
  proposed patches are dictionaries whose values are typed \<open>Any\<close>.  They are modelled by
  one datatype of JSON values; a dictionary keeps its insertion order, so it is an
  association list.  Floating point numbers do not occur in any of the functions modelled
  here and are left out.
\<close>

datatype json =
    JNull
  | JBool bool
  | JInt int
  | JStr string
  | JArr "json list"
  | JObj "(string \<times> json) list"

text \<open>
  Exceptions.  The four \<open>ValueError\<close>s of \<open>apply_edits\<close> carry the data their message is
  formatted from; the other constructors are the Python exception classes raised by the
  library calls the code makes.
\<close>

datatype exn =
    TooManyFiles nat int
  | InvalidPatchSchema string
  | UnsafePath string
  | ChangeBudgetExceeded nat int
  | AttributeError
  | TypeError
  | OSError
  | GraphRecursionError
  | ExternalError string

fun is_ValueError :: "exn \<Rightarrow> bool" where
  "is_ValueError (TooManyFiles n m) = True"
| "is_ValueError (InvalidPatchSchema msg) = True"
| "is_ValueError (UnsafePath p) = True"
| "is_ValueError (ChangeBudgetExceeded n m) = True"
| "is_ValueError e = False"

definition LF :: char where "LF = CHR 0x0A"
definition CR :: char where "CR = CHR 0x0D"

text \<open>\<open>s.startswith(p)\<close>\<close>

definition startswith :: "string \<Rightarrow> string \<Rightarrow> bool" where
  "startswith s p = (take (length p) s = p)"

text \<open>\<open>sep.join(xs)\<close>\<close>

fun join :: "string \<Rightarrow> string list \<Rightarrow> string" where
  "join sep [] = []"
| "join sep [x] = x"
| "join sep (x # y # ys) = x @ sep @ join sep (y # ys)"

text \<open>\<open>s.split(c)\<close> for a one-character separator\<close>

fun split_on :: "char \<Rightarrow> string \<Rightarrow> string list" where
  "split_on c [] = [[]]"
| "split_on c (x # xs) =
     (if x = c then [] # split_on c xs
      else (case split_on c xs of
              [] \<Rightarrow> [[x]]
            | w # ws \<Rightarrow> (x # w) # ws))"

text \<open>
  \<open>s.replace("\r\n", "\n")\<close> and \<open>s.replace("\r", "\n")\<close>, the two calls that
  \<open>apply_edits\<close> chains.  Reading a file in text mode translates line endings the same way
  (universal newlines).
\<close>

fun replace_crlf :: "string \<Rightarrow> string" where
  "replace_crlf (a # b # cs) =
     (if a = CR \<and> b = LF then LF # replace_crlf cs else a # replace_crlf (b # cs))"
| "replace_crlf cs = cs"

definition replace_cr :: "string \<Rightarrow> string" where
  "replace_cr s = map (\<lambda>c. if c = CR then LF else c) s"

definition normalize_newlines :: "string \<Rightarrow> string" where
  "normalize_newlines s = replace_cr (replace_crlf s)"

text \<open>
  \<open>s.splitlines(keepends=False)\<close>.  Characters are the code points below 256; the line
  boundaries among them are LF, CR, CR LF, VT, FF, FS, GS, RS and NEL.
\<close>

definition is_linebreak :: "char \<Rightarrow> bool" where
  "is_linebreak c = (c \<in> {CHR 0x0A, CHR 0x0D, CHR 0x0B, CHR 0x0C, CHR 0x1C, CHR 0x1D, CHR 0x1E, CHR 0x85})"

fun splitlines_from :: "string \<Rightarrow> string \<Rightarrow> string list" where
  "splitlines_from cur [] = (if cur = [] then [] else [rev cur])"
| "splitlines_from cur [c] = (if is_linebreak c then [rev cur] else [rev (c # cur)])"
| "splitlines_from cur (c # d # cs) =
     (if c = CR \<and> d = LF then rev cur # splitlines_from [] cs
      else if is_linebreak c then rev cur # splitlines_from [] (d # cs)
      else splitlines_from (c # cur) (d # cs))"

definition splitlines :: "string \<Rightarrow> string list" where
  "splitlines s = splitlines_from [] s"

section \<open>Paths and the file system\<close>

text \<open>
  A path of the file system is the list of its segments below the root.  A lexical path
  may hold \<open>..\<close> segments; \<open>resolve\<close> is \<open>Path.resolve()\<close> on a file system without
  symbolic links: it walks the segments and lets \<open>..\<close> step back to the parent (the
  root is its own parent).
\<close>

type_synonym path = "string list"

definition resolve_step :: "path \<Rightarrow> string \<Rightarrow> path" where
  "resolve_step acc s =
     (if s = ''..'' then butlast acc
      else if s = ''.'' \<or> s = [] then acc
      else acc @ [s])"

definition resolve :: "path \<Rightarrow> path" where
  "resolve p = foldl resolve_step [] p"

text \<open>\<open>str(p)\<close> of an absolute path\<close>

definition path_str :: "path \<Rightarrow> string" where
  "path_str p = (if p = [] then ''/'' else concat (map (\<lambda>s. ''/'' @ s) p))"

text \<open>
  \<open>PurePosixPath(s)\<close>: the root is \<open>/\<close>, or \<open>//\<close> for exactly two leading slashes; empty
  and \<open>.\<close> segments are dropped, \<open>..\<close> segments are kept.
\<close>

definition posix_root :: "string \<Rightarrow> string" where
  "posix_root s =
     (if take 1 s \<noteq> ''/'' then []
      else if take 2 s = ''//'' \<and> take 3 s \<noteq> ''///'' then ''//''
      else ''/'')"

definition posix_segments :: "string \<Rightarrow> string list" where
  "posix_segments s = filter (\<lambda>x. x \<noteq> [] \<and> x \<noteq> ''.'') (split_on (CHR ''/'') s)"

text \<open>\<open>PurePosixPath(s).parts\<close>\<close>

definition posix_parts :: "string \<Rightarrow> string list" where
  "posix_parts s =
     (if posix_root s = [] then posix_segments s else posix_root s # posix_segments s)"

text \<open>\<open>str(PurePosixPath(s))\<close>\<close>

definition posix_str :: "string \<Rightarrow> string" where
  "posix_str s =
     (if posix_root s = [] \<and> posix_segments s = [] then ''.''
      else posix_root s @ join ''/'' (posix_segments s))"

text \<open>
  The file system: regular files with their text, and directories.  Symbolic links,
  permissions and undecodable file contents are outside the model.  File operations
  address a file by a lexical path and act on what it resolves to.
\<close>

record fs =
  files :: "path \<rightharpoonup> string"
  dirs :: "path set"

text \<open>\<open>p.exists()\<close>\<close>

definition exists_path :: "fs \<Rightarrow> path \<Rightarrow> bool" where
  "exists_path f p = (resolve p \<in> dom (files f) \<or> resolve p \<in> dirs f)"

text \<open>\<open>p.read_text(encoding="utf-8")\<close>: fails on a directory and on a missing file.\<close>

definition read_text :: "fs \<Rightarrow> path \<Rightarrow> exn + string" where
  "read_text f p =
     (case files f (resolve p) of
        None \<Rightarrow> Inl OSError
      | Some c \<Rightarrow> Inr (normalize_newlines c))"

text \<open>
  \<open>p.write_text(content, encoding="utf-8")\<close>: fails when the target is a directory or its
  parent is not one; otherwise creates or overwrites the file.
\<close>

definition write_text :: "fs \<Rightarrow> path \<Rightarrow> string \<Rightarrow> exn + fs" where
  "write_text f p content =
     (let t = resolve p in
      if t \<in> dirs f \<or> butlast t \<notin> dirs f then Inl OSError
      else Inr (f\<lparr>files := (files f)(t \<mapsto> content)\<rparr>))"

text \<open>
  \<open>p.mkdir(parents=True, exist_ok=True)\<close>: the directories along the lexical path are
  created from the outermost inwards; the call fails at the first prefix that is a regular
  file, and the directories made before that stay.
\<close>

fun mkdir_walk :: "fs \<Rightarrow> path \<Rightarrow> string list \<Rightarrow> exn option \<times> fs" where
  "mkdir_walk f pre [] = (None, f)"
| "mkdir_walk f pre (s # rest) =
     (let d = resolve (pre @ [s]) in
      if d \<in> dom (files f) then (Some OSError, f)
      else mkdir_walk (f\<lparr>dirs := insert d (dirs f)\<rparr>) (pre @ [s]) rest)"

definition mkdir_parents :: "fs \<Rightarrow> path \<Rightarrow> exn option \<times> fs" where
  "mkdir_parents f p = mkdir_walk f [] p"

section \<open>External libraries and collaborators\<close>

text \<open>
  What the agent calls but does not define is a parameter of the model: the standard
  library's \<open>difflib.unified_diff\<close> (called with \<open>lineterm=""\<close>), \<open>json.dumps\<close>
  (with \<open>indent=2\<close>) and \<open>json.loads\<close> (\<open>None\<close> when it raises), \<open>str\<close> of a value
  that is not a string, the regular-expression searches of \<open>reflect_update\<close> (the table
  patterns searched with \<open>IGNORECASE | DOTALL\<close>, the symbol captured by the
  \<open>NameError\<close> pattern, \<open>re.escape\<close>) and the clock.  So are the three collaborators
  that the controller only calls: \<open>summarize_files\<close> and \<open>plan_fix\<close> of
  \<open>agent/planner.py\<close>, applied to the arguments the nodes pass, and the \<open>pytest\<close> process
  with its return code and its two output streams.  Every statement holds for all of
  them, so for every planner and every test outcome.
\<close>

record ext =
  unified_diff :: "string list \<Rightarrow> string list \<Rightarrow> string list"
  json_dumps :: "json \<Rightarrow> string"
  json_loads :: "string \<Rightarrow> json option"
  py_str :: "json \<Rightarrow> string"
  re_search :: "string \<Rightarrow> string \<Rightarrow> bool"
  name_error_symbol :: "string \<Rightarrow> string option"
  re_escape :: "string \<Rightarrow> string"
  time_now :: int
  summarize_files :: "path \<Rightarrow> fs \<Rightarrow> exn + (string \<times> string) list"
  plan_fix :: "json \<Rightarrow> string \<Rightarrow> (string \<times> string) list \<Rightarrow> path \<Rightarrow> fs \<Rightarrow> exn + json list"
  run_pytest :: "path \<Rightarrow> fs \<Rightarrow> exn + (int \<times> string \<times> string)"

section \<open>Dictionaries\<close>

text \<open>\<open>d.get(k, default)\<close>\<close>

definition dict_get :: "(string \<times> json) list \<Rightarrow> string \<Rightarrow> json \<Rightarrow> json" where
  "dict_get kvs k d = (case map_of kvs k of None \<Rightarrow> d | Some v \<Rightarrow> v)"

text \<open>\<open>d[k] = v\<close>: an existing key keeps its position, a new key goes last.\<close>

fun dict_set :: "(string \<times> json) list \<Rightarrow> string \<Rightarrow> json \<Rightarrow> (string \<times> json) list" where
  "dict_set [] k v = [(k, v)]"
| "dict_set ((k', v') # kvs) k v =
     (if k' = k then (k, v) # kvs else (k', v') # dict_set kvs k v)"

text \<open>\<open>d.setdefault(k, default)\<close>\<close>

definition setdefault :: "(string \<times> json) list \<Rightarrow> string \<Rightarrow> json \<Rightarrow> (string \<times> json) list" where
  "setdefault kvs k d = (if map_of kvs k = None then kvs @ [(k, d)] else kvs)"

definition is_str :: "json \<Rightarrow> bool" where
  "is_str v = (case v of JStr s \<Rightarrow> True | _ \<Rightarrow> False)"

text \<open>\<open>str(v)\<close>\<close>

definition to_str :: "ext \<Rightarrow> json \<Rightarrow> string" where
  "to_str E v = (case v of JStr s \<Rightarrow> s | _ \<Rightarrow> py_str E v)"

section \<open>agent/patcher.py\<close>

definition WHITELIST_ROOT :: string where
  "WHITELIST_ROOT = ''app''"

definition edits_path :: "path \<Rightarrow> path" where
  "edits_path workspace = workspace @ [''.selfevolve'', ''edits.json'']"

text \<open>The loop of \<open>write_edits_json\<close>; \<open>p.get\<close> raises on a patch that is not a dictionary.\<close>

fun edits_payload :: "ext \<Rightarrow> json list \<Rightarrow> exn + json list" where
  "edits_payload E [] = Inr []"
| "edits_payload E (p # ps) =
     (case p of
        JObj kvs \<Rightarrow>
          (case edits_payload E ps of
             Inl e \<Rightarrow> Inl e
           | Inr rest \<Rightarrow>
               Inr (JObj [(''path'', JStr (posix_str (to_str E (dict_get kvs ''path'' (JStr []))))),
                          (''newText'', dict_get kvs ''new_text'' (JStr []))] # rest))
      | _ \<Rightarrow> Inl AttributeError)"

definition write_edits_json :: "ext \<Rightarrow> path \<Rightarrow> json list \<Rightarrow> fs \<Rightarrow> (exn + unit) \<times> fs" where
  "write_edits_json E workspace patches f =
     (case mkdir_parents f (workspace @ [''.selfevolve'']) of
        (Some e, f1) \<Rightarrow> (Inl e, f1)
      | (None, f1) \<Rightarrow>
          (case edits_payload E patches of
             Inl e \<Rightarrow> (Inl e, f1)
           | Inr payload \<Rightarrow>
               (case write_text f1 (edits_path workspace) (json_dumps E (JArr payload)) of
                  Inl e \<Rightarrow> (Inl e, f1)
                | Inr f2 \<Rightarrow> (Inr (), f2))))"

text \<open>
  \<open>_is_safe_path\<close>.  The first part of the path must be \<open>app\<close>, which also makes the path
  relative, so that \<open>workspace / rel_path\<close> is the workspace's segments followed by the
  path's.  The \<open>except\<close> branch is taken when \<open>resolve()\<close> raises, which it does on a NUL
  character.  The last line compares the two paths as strings.
\<close>

definition is_safe_path :: "path \<Rightarrow> string \<Rightarrow> bool" where
  "is_safe_path workspace rel_path =
     (let parts = posix_parts rel_path in
      if parts = [] \<or> hd parts \<noteq> WHITELIST_ROOT then False
      else if CHR 0x00 \<in> set rel_path then False
      else startswith (path_str (resolve (workspace @ posix_segments rel_path)))
                      (path_str (resolve (workspace @ [WHITELIST_ROOT]))))"

text \<open>\<open>_validate_schema\<close>; the messages are given without their quotation marks.\<close>

definition validate_schema :: "json \<Rightarrow> bool \<times> string" where
  "validate_schema patch =
     (case patch of
        JObj kvs \<Rightarrow>
          (if map_of kvs ''path'' = None \<or> map_of kvs ''new_text'' = None
             then (False, ''patch requires path and new_text'')
           else if \<not> is_str (dict_get kvs ''path'' JNull)
             then (False, ''path must be a string'')
           else if \<not> is_str (dict_get kvs ''new_text'' JNull)
             then (False, ''new_text must be a string'')
           else (True, []))
      | _ \<Rightarrow> (False, ''patch must be a dict''))"

text \<open>\<open>p[k]\<close> for a patch that passed \<open>_validate_schema\<close>, where it is a string.\<close>

definition str_field :: "json \<Rightarrow> string \<Rightarrow> string" where
  "str_field patch k =
     (case patch of
        JObj kvs \<Rightarrow> (case map_of kvs k of Some (JStr s) \<Rightarrow> s | _ \<Rightarrow> [])
      | _ \<Rightarrow> [])"

text \<open>The counting loop of \<open>_count_changed_lines\<close> over the lines of the diff.\<close>

fun tally :: "string list \<Rightarrow> nat \<Rightarrow> nat \<Rightarrow> nat" where
  "tally [] added removed = added + removed"
| "tally (line # rest) added removed =
     (if startswith line ''+'' \<and> \<not> startswith line ''+++'' then tally rest (added + 1) removed
      else if startswith line ''-'' \<and> \<not> startswith line ''---'' then tally rest added (removed + 1)
      else tally rest added removed)"

definition count_changed_lines :: "ext \<Rightarrow> string \<Rightarrow> string \<Rightarrow> nat" where
  "count_changed_lines E old_text new_text =
     tally (unified_diff E (splitlines old_text) (splitlines new_text)) 0 0"

text \<open>
  The validation loop of \<open>apply_edits\<close>, with its two accumulators \<open>total_changed\<close> and
  \<open>to_write\<close>.  The file system is returned on every path out of the loop, because
  \<open>mkdir\<close> has already acted when a later check raises.
\<close>

fun validate_batch ::
  "ext \<Rightarrow> path \<Rightarrow> int \<Rightarrow> json list \<Rightarrow> nat \<Rightarrow> (path \<times> string) list \<Rightarrow> fs
     \<Rightarrow> (exn + (path \<times> string) list) \<times> fs" where
  "validate_batch E workspace max_total_lines [] total_changed to_write f = (Inr to_write, f)"
| "validate_batch E workspace max_total_lines (p # ps) total_changed to_write f =
     (case validate_schema p of
        (False, msg) \<Rightarrow> (Inl (InvalidPatchSchema msg), f)
      | (True, msg) \<Rightarrow>
          (let rel_path = posix_str (str_field p ''path'') in
           if \<not> is_safe_path workspace rel_path then (Inl (UnsafePath rel_path), f)
           else
             (let file_path = workspace @ posix_segments rel_path in
              case mkdir_parents f (butlast file_path) of
                (Some e, f1) \<Rightarrow> (Inl e, f1)
              | (None, f1) \<Rightarrow>
                  (case (if exists_path f1 file_path then read_text f1 file_path else Inr []) of
                     Inl e \<Rightarrow> (Inl e, f1)
                   | Inr old_text \<Rightarrow>
                       (let new_text = replace_cr (replace_crlf (str_field p ''new_text''));
                            changed = count_changed_lines E old_text new_text;
                            running = total_changed + changed
                        in if int running > max_total_lines
                           then (Inl (ChangeBudgetExceeded running max_total_lines), f1)
                           else validate_batch E workspace max_total_lines ps running
                                  (to_write @ [(file_path, new_text)]) f1)))))"

text \<open>The writing loop of \<open>apply_edits\<close>.\<close>

fun write_all :: "(path \<times> string) list \<Rightarrow> fs \<Rightarrow> (exn + unit) \<times> fs" where
  "write_all [] f = (Inr (), f)"
| "write_all ((fpath, content) # rest) f =
     (case write_text f fpath content of
        Inl e \<Rightarrow> (Inl e, f)
      | Inr f' \<Rightarrow> write_all rest f')"

definition apply_edits ::
  "ext \<Rightarrow> path \<Rightarrow> json list \<Rightarrow> int \<Rightarrow> int \<Rightarrow> fs \<Rightarrow> (exn + unit) \<times> fs" where
  "apply_edits E workspace patches max_files max_total_lines f =
     (if patches = [] then (Inr (), f)
      else if int (length patches) > max_files
        then (Inl (TooManyFiles (length patches) max_files), f)
      else
        (case validate_batch E workspace max_total_lines patches 0 [] f of
           (Inl e, f1) \<Rightarrow> (Inl e, f1)
         | (Inr to_write, f1) \<Rightarrow> write_all to_write f1))"

section \<open>agent/reflect.py\<close>

text \<open>
  \<open>load_memory\<close>.  The \<open>try\<close> block covers reading and parsing only; the two
  \<open>setdefault\<close> calls come after it and need a dictionary.
\<close>

definition load_memory :: "ext \<Rightarrow> fs \<Rightarrow> path \<Rightarrow> exn + json" where
  "load_memory E f mem_path =
     (let mem =
        (if exists_path f mem_path then
           (case read_text f mem_path of
              Inl e \<Rightarrow> JObj []
            | Inr raw \<Rightarrow>
                (case json_loads E (if raw = [] then ''{}'' else raw) of
                   None \<Rightarrow> JObj []
                 | Some v \<Rightarrow> v))
         else JObj [])
      in case mem of
           JObj kvs \<Rightarrow>
             Inr (JObj (setdefault (setdefault kvs ''heuristics'' (JArr [])) ''fix_snippets'' (JArr [])))
         | _ \<Rightarrow> Inl AttributeError)"

text \<open>
  \<open>save_memory\<close> stamps the dictionary it is given, so the caller sees the stamp too: the
  stamped memory is returned with the file system.
\<close>

definition save_memory :: "ext \<Rightarrow> fs \<Rightarrow> path \<Rightarrow> json \<Rightarrow> (exn + json) \<times> fs" where
  "save_memory E f mem_path memory =
     (case mkdir_parents f (butlast mem_path) of
        (Some e, f1) \<Rightarrow> (Inl e, f1)
      | (None, f1) \<Rightarrow>
          (case memory of
             JObj kvs \<Rightarrow>
               (let stamped = JObj (dict_set kvs ''_updated_at'' (JInt (time_now E))) in
                case write_text f1 mem_path (json_dumps E stamped) of
                  Inl e \<Rightarrow> (Inl e, f1)
                | Inr f2 \<Rightarrow> (Inr stamped, f2))
           | _ \<Rightarrow> (Inl TypeError, f1)))"

definition BSL :: char where "BSL = CHR 0x5C"
definition SQ :: char where "SQ = CHR 0x27"

text \<open>The table \<open>_PATTERNS\<close>: tag, regex, advice.\<close>

definition PATTERNS :: "(string \<times> string \<times> string) list" where
  "PATTERNS =
     [(''off_by_one'', ''AssertionError.*=='',
         ''Check +/- 1 around arithmetic or index bounds. Verify len/slicing.''),
      (''none_guard'', ''TypeError: .*NoneType'',
         ''Guard None inputs or provide defaults before arithmetic/attribute access.''),
      (''index_bounds'', ''IndexError: list index out of range'',
         ''Verify bounds; prefer enumerate or range(len(...))-1 checks.''),
      (''key_missing'', ''KeyError: .+'',
         ''Use dict.get with default or check key existence before access.''),
      (''import_missing'',
         ''(ModuleNotFoundError|ImportError):'' @ [BSL] @ ''s*No module named'' @ [BSL] @ ''s+''
           @ [SQ] @ ''?(['' @ [BSL] @ ''w'' @ [BSL] @ ''.]+)'' @ [SQ] @ ''?'',
         ''Confirm package/install or relative import path; avoid shadowing stdlib names.''),
      (''type_mismatch'', ''TypeError: .* (unsupported operand type|expected .* got .*)'',
         ''Add type guards/casts; keep operations between compatible types.'')]"

text \<open>
  The key of an item in \<open>_dedupe\<close>: \<open>tuple(item.get(k, "") for k in key)\<close>.  \<open>item.get\<close>
  needs a dictionary; putting the tuple into the set \<open>seen\<close> needs hashable components,
  and the set identifies \<open>True\<close> with 1 and \<open>False\<close> with 0.
\<close>

definition hashable :: "json \<Rightarrow> bool" where
  "hashable v = (case v of JArr xs \<Rightarrow> False | JObj kvs \<Rightarrow> False | _ \<Rightarrow> True)"

definition hash_key :: "json \<Rightarrow> json" where
  "hash_key v = (case v of JBool b \<Rightarrow> JInt (if b then 1 else 0) | _ \<Rightarrow> v)"

definition item_key :: "string list \<Rightarrow> json \<Rightarrow> exn + json list" where
  "item_key key item =
     (case item of
        JObj kvs \<Rightarrow>
          (let k = map (\<lambda>n. dict_get kvs n (JStr [])) key in
           if list_all hashable k then Inr (map hash_key k) else Inl TypeError)
      | _ \<Rightarrow> Inl AttributeError)"

fun dedupe_loop ::
  "string list \<Rightarrow> int \<Rightarrow> json list \<Rightarrow> json list list \<Rightarrow> json list \<Rightarrow> exn + json list" where
  "dedupe_loop key max_items [] seen out = Inr out"
| "dedupe_loop key max_items (item # rest) seen out =
     (case item_key key item of
        Inl e \<Rightarrow> Inl e
      | Inr k \<Rightarrow>
          (let fresh = (k \<notin> set seen);
               seen' = (if fresh then k # seen else seen);
               out' = (if fresh then out @ [item] else out)
           in if int (length out') \<ge> max_items then Inr out'
              else dedupe_loop key max_items rest seen' out'))"

definition dedupe :: "json list \<Rightarrow> string list \<Rightarrow> int \<Rightarrow> exn + json list" where
  "dedupe seq key max_items = dedupe_loop key max_items seq [] []"

text \<open>The default arguments of \<open>_dedupe\<close>.\<close>

definition DEDUPE_KEY :: "string list" where
  "DEDUPE_KEY = [''tag'', ''regex'', ''advice'']"

definition DEDUPE_MAX :: int where
  "DEDUPE_MAX = 64"

text \<open>\<open>list(v)\<close>\<close>

definition py_list :: "json \<Rightarrow> exn + json list" where
  "py_list v =
     (case v of
        JArr xs \<Rightarrow> Inr xs
      | JStr s \<Rightarrow> Inr (map (\<lambda>c. JStr [c]) s)
      | JObj kvs \<Rightarrow> Inr (map (\<lambda>kv. JStr (fst kv)) kvs)
      | _ \<Rightarrow> Inl TypeError)"

definition rule :: "string \<Rightarrow> string \<Rightarrow> string \<Rightarrow> json" where
  "rule tag pattern advice =
     JObj [(''tag'', JStr tag), (''pattern'', JStr pattern), (''advice'', JStr advice)]"

definition mined_rules :: "ext \<Rightarrow> string \<Rightarrow> json list" where
  "mined_rules E log =
     map (\<lambda>(tag, regex, advice). rule tag regex advice)
         (filter (\<lambda>(tag, regex, advice). re_search E regex log) PATTERNS)"

definition name_error_rule :: "ext \<Rightarrow> string \<Rightarrow> json list" where
  "name_error_rule E log =
     (case name_error_symbol E log of
        None \<Rightarrow> []
      | Some symb \<Rightarrow>
          [rule ''name_error''
                (''NameError:.*'' @ [BSL] @ ''b'' @ re_escape E symb @ [BSL] @ ''b'')
                (''Define or import '' @ [SQ] @ symb @ [SQ] @ '' before use; check scope.'')])"

definition reflect_update :: "ext \<Rightarrow> json \<Rightarrow> string \<Rightarrow> exn + json" where
  "reflect_update E memory test_log =
     (let kvs0 = (case memory of
                    JObj kvs \<Rightarrow> kvs
                  | _ \<Rightarrow> [(''heuristics'', JArr []), (''fix_snippets'', JArr [])]);
          kvs1 = setdefault (setdefault kvs0 ''heuristics'' (JArr [])) ''fix_snippets'' (JArr []);
          new_rules = mined_rules E test_log @ name_error_rule E test_log
      in case py_list (dict_get kvs1 ''heuristics'' JNull) of
           Inl e \<Rightarrow> Inl e
         | Inr old \<Rightarrow>
             (case dedupe (old @ new_rules) DEDUPE_KEY DEDUPE_MAX of
                Inl e \<Rightarrow> Inl e
              | Inr merged \<Rightarrow> Inr (JObj (dict_set kvs1 ''heuristics'' (JArr merged)))))"

section \<open>agent/graph.py\<close>

text \<open>
  The state \<open>S\<close>.  It is a \<open>TypedDict\<close> with \<open>total=False\<close>: every key but \<open>repo\<close> may be
  absent, and the code reads such keys with \<open>state.get\<close>.  \<open>message\<close> holds the exception
  its text is formatted from.  The counters \<open>plans\<close>, \<open>applies\<close>, \<open>runs\<close> and
  \<open>reflects\<close> are declared in the source and never read or written; they are left out.
  The last field is the key \<open>"test_passed"\<close> that \<open>_route_after_tests\<close> looks up: it is not
  among the declared keys, and no node writes it.
\<close>

record S =
  repo :: path
  max_iters :: "int option"
  iter :: "int option"
  memory :: "json option"
  file_summaries :: "(string \<times> string) list option"
  patches :: "json list option"
  tests_passed :: "bool option"
  test_log :: "string option"
  error_flag :: "bool option"
  message :: "exn option"
  test_passed :: "bool option"

datatype node = ReadContext | PlanFix | ApplyPatch | RunTests | Reflect

text \<open>A node returns the next state and file system, or raises.\<close>

type_synonym node_fn = "S \<Rightarrow> fs \<Rightarrow> exn + S \<times> fs"

text \<open>Truth value of \<open>state.get(k)\<close> for a Boolean key; \<open>END\<close> is \<open>None\<close>.\<close>

definition truthy :: "bool option \<Rightarrow> bool" where
  "truthy v = (v = Some True)"

definition get_or :: "'a option \<Rightarrow> 'a \<Rightarrow> 'a" where
  "get_or v d = (case v of None \<Rightarrow> d | Some x \<Rightarrow> x)"

definition route_after_apply :: "S \<Rightarrow> node option" where
  "route_after_apply state = (if truthy (error_flag state) then None else Some RunTests)"

definition route_after_tests :: "S \<Rightarrow> node option" where
  "route_after_tests state =
     (if truthy (error_flag state) then None
      else if truthy (test_passed state) then None
      else if get_or (iter state) 0 + 1 \<ge> get_or (max_iters state) 3 then None
      else Some Reflect)"

text \<open>The edges that \<open>build_graph\<close> adds.\<close>

fun next_node :: "node \<Rightarrow> S \<Rightarrow> node option" where
  "next_node ReadContext state = Some PlanFix"
| "next_node PlanFix state = Some ApplyPatch"
| "next_node ApplyPatch state = route_after_apply state"
| "next_node RunTests state = route_after_tests state"
| "next_node Reflect state = Some PlanFix"

text \<open>The nodes that \<open>build_graph\<close> is given.\<close>

fun build_graph :: "node_fn \<Rightarrow> node_fn \<Rightarrow> node_fn \<Rightarrow> node_fn \<Rightarrow> node_fn \<Rightarrow> node \<Rightarrow> node_fn" where
  "build_graph rc pf ap rt rf ReadContext = rc"
| "build_graph rc pf ap rt rf PlanFix = pf"
| "build_graph rc pf ap rt rf ApplyPatch = ap"
| "build_graph rc pf ap rt rf RunTests = rt"
| "build_graph rc pf ap rt rf Reflect = rf"

text \<open>
  Running the compiled graph from a node.  The first argument is the number of node
  executions still allowed: the graph library stops a run with \<open>GraphRecursionError\<close>
  when its recursion limit is used up.  The last component of the result lists the nodes
  executed, in order.
\<close>

fun run_from ::
  "nat \<Rightarrow> (node \<Rightarrow> node_fn) \<Rightarrow> node \<Rightarrow> S \<Rightarrow> fs \<Rightarrow> node list \<Rightarrow> exn + S \<times> fs \<times> node list" where
  "run_from 0 g cur state f visited = Inl GraphRecursionError"
| "run_from (Suc n) g cur state f visited =
     (case g cur state f of
        Inl e \<Rightarrow> Inl e
      | Inr (state', f') \<Rightarrow>
          (case next_node cur state' of
             None \<Rightarrow> Inr (state', f', visited @ [cur])
           | Some nxt \<Rightarrow> run_from n g nxt state' f' (visited @ [cur])))"

text \<open>\<open>app.invoke(initial)\<close> with the library's default recursion limit.\<close>

definition RECURSION_LIMIT :: nat where
  "RECURSION_LIMIT = 25"

definition invoke :: "(node \<Rightarrow> node_fn) \<Rightarrow> S \<Rightarrow> fs \<Rightarrow> exn + S \<times> fs \<times> node list" where
  "invoke g initial f = run_from RECURSION_LIMIT g ReadContext initial f []"

section \<open>agent/cli.py\<close>

definition memory_path :: "path \<Rightarrow> path" where
  "memory_path ws = ws @ [''agent'', ''memory.json'']"

definition read_context :: "ext \<Rightarrow> node_fn" where
  "read_context E state f =
     (case load_memory E f (memory_path (repo state)) of
        Inl e \<Rightarrow> Inl e
      | Inr mem \<Rightarrow>
          (case summarize_files E (repo state) f of
             Inl e \<Rightarrow> Inl e
           | Inr sums \<Rightarrow> Inr (state\<lparr>memory := Some mem, file_summaries := Some sums\<rparr>, f)))"

definition node_plan_fix :: "ext \<Rightarrow> node_fn" where
  "node_plan_fix E state f =
     (case plan_fix E (get_or (memory state) (JObj [])) (get_or (test_log state) [])
             (get_or (file_summaries state) []) (repo state) f of
        Inl e \<Rightarrow> Inl e
      | Inr ps \<Rightarrow> Inr (state\<lparr>patches := Some ps\<rparr>, f))"

text \<open>
  \<open>node_apply_patch\<close> catches every exception, so it always returns.  \<open>apply_edits\<close> is
  called with its default limits, 3 files and 300 lines.
\<close>

definition apply_patch_effect :: "ext \<Rightarrow> S \<Rightarrow> fs \<Rightarrow> S \<times> fs" where
  "apply_patch_effect E state f =
     (let ws = repo state;
          ps = get_or (patches state) []
      in if ps \<noteq> [] then
           (case write_edits_json E ws ps f of
              (Inl e, f1) \<Rightarrow> (state\<lparr>error_flag := Some True, message := Some e\<rparr>, f1)
            | (Inr u, f1) \<Rightarrow>
                (case apply_edits E ws ps 3 300 f1 of
                   (Inl e, f2) \<Rightarrow> (state\<lparr>error_flag := Some True, message := Some e\<rparr>, f2)
                 | (Inr u', f2) \<Rightarrow> (state\<lparr>error_flag := Some False\<rparr>, f2)))
         else (state\<lparr>error_flag := Some False\<rparr>, f))"

definition node_apply_patch :: "ext \<Rightarrow> node_fn" where
  "node_apply_patch E state f = Inr (apply_patch_effect E state f)"

definition node_run_tests :: "ext \<Rightarrow> node_fn" where
  "node_run_tests E state f =
     (case run_pytest E (repo state) f of
        Inl e \<Rightarrow> Inl e
      | Inr (returncode, out, err) \<Rightarrow>
          Inr (state\<lparr>tests_passed := Some (returncode = 0),
                     test_log := Some (out @ [LF] @ err)\<rparr>, f))"

definition node_reflect :: "ext \<Rightarrow> node_fn" where
  "node_reflect E state f =
     (case reflect_update E (get_or (memory state) (JObj [])) (get_or (test_log state) []) of
        Inl e \<Rightarrow> Inl e
      | Inr mem \<Rightarrow>
          (case save_memory E f (memory_path (repo state)) mem of
             (Inl e, f1) \<Rightarrow> Inl e
           | (Inr mem', f1) \<Rightarrow>
               Inr (state\<lparr>memory := Some mem', iter := Some (get_or (iter state) 0 + 1)\<rparr>, f1)))"

text \<open>The state that \<open>main\<close> starts from, and the graph it compiles.\<close>

definition initial :: "path \<Rightarrow> int \<Rightarrow> S" where
  "initial workspace max_iters_arg =
     \<lparr>repo = workspace, max_iters = Some max_iters_arg, iter = Some 0, memory = None,
      file_summaries = None, patches = None, tests_passed = None, test_log = None,
      error_flag = None, message = None, test_passed = None\<rparr>"

definition app :: "ext \<Rightarrow> node \<Rightarrow> node_fn" where
  "app E = build_graph (read_context E) (node_plan_fix E) (node_apply_patch E)
             (node_run_tests E) (node_reflect E)"

definition main_run :: "ext \<Rightarrow> path \<Rightarrow> int \<Rightarrow> fs \<Rightarrow> exn + S \<times> fs \<times> node list" where
  "main_run E workspace max_iters_arg f = invoke (app E) (initial workspace max_iters_arg) f"

section \<open>Notions used in the statements\<close>

text \<open>
  What \<open>apply_edits\<close> computes for one patch that has passed \<open>_validate_schema\<close>: the
  normalised relative path, the lexical path of the file and of its parent directory, the
  location the file path resolves to, and the text that will be written.
\<close>

definition rel_path_of :: "json \<Rightarrow> string" where
  "rel_path_of p = posix_str (str_field p ''path'')"

definition file_path_of :: "path \<Rightarrow> json \<Rightarrow> path" where
  "file_path_of workspace p = workspace @ posix_segments (rel_path_of p)"

definition parent_of :: "path \<Rightarrow> json \<Rightarrow> path" where
  "parent_of workspace p = butlast (file_path_of workspace p)"

definition target_of :: "path \<Rightarrow> json \<Rightarrow> path" where
  "target_of workspace p = resolve (file_path_of workspace p)"

definition new_text_of :: "json \<Rightarrow> string" where
  "new_text_of p = replace_cr (replace_crlf (str_field p ''new_text''))"

text \<open>
  The changed-line count of a patch against the files \<open>fm\<close> on disk (the empty text when
  its target is not a file), and the total over a list of patches.
\<close>

definition changed_of :: "ext \<Rightarrow> path \<Rightarrow> (path \<rightharpoonup> string) \<Rightarrow> json \<Rightarrow> nat" where
  "changed_of E workspace fm p =
     count_changed_lines E
       (case fm (target_of workspace p) of None \<Rightarrow> [] | Some c \<Rightarrow> normalize_newlines c)
       (new_text_of p)"

definition total_changed_of :: "ext \<Rightarrow> path \<Rightarrow> (path \<rightharpoonup> string) \<Rightarrow> json list \<Rightarrow> nat" where
  "total_changed_of E workspace fm ps = sum_list (map (changed_of E workspace fm) ps)"

text \<open>
  A patch at position \<open>i\<close> of a batch fails validation when its schema is bad, its path
  is unsafe, or the running total of changed lines up to and including it is over the
  limit.
\<close>

definition fails_validation ::
  "ext \<Rightarrow> path \<Rightarrow> int \<Rightarrow> (path \<rightharpoonup> string) \<Rightarrow> json list \<Rightarrow> nat \<Rightarrow> bool" where
  "fails_validation E workspace max_total_lines fm ps i =
     (\<not> fst (validate_schema (ps ! i))
      \<or> \<not> is_safe_path workspace (rel_path_of (ps ! i))
      \<or> int (total_changed_of E workspace fm (take (Suc i) ps)) > max_total_lines)"

text \<open>A location is under a directory when the directory's segments begin it.\<close>

definition is_under :: "path \<Rightarrow> path \<Rightarrow> bool" where
  "is_under d t = (take (length d) t = d)"

definition is_dict :: "json \<Rightarrow> bool" where
  "is_dict v = (case v of JObj kvs \<Rightarrow> True | _ \<Rightarrow> False)"

text \<open>A patch dictionary as the planner builds it.\<close>

definition patch :: "string \<Rightarrow> string \<Rightarrow> json" where
  "patch path_arg new_text_arg = JObj [(''path'', JStr path_arg), (''new_text'', JStr new_text_arg)]"

text \<open>A test process that never reports success.\<close>

definition always_fails :: "ext \<Rightarrow> bool" where
  "always_fails E = (\<forall>ws f rc out err. run_pytest E ws f = Inr (rc, out, err) \<longrightarrow> rc \<noteq> 0)"

text \<open>
  What the summary printed by \<open>main\<close> shows of a finished run, with the nodes executed:
  \<open>iter\<close>, \<open>tests_passed\<close>, \<open>error_flag\<close>.
\<close>

definition outcome ::
  "exn + S \<times> fs \<times> node list \<Rightarrow> (int option \<times> bool option \<times> bool option \<times> node list) option" where
  "outcome r =
     (case r of
        Inl e \<Rightarrow> None
      | Inr (state, f, visited) \<Rightarrow> Some (iter state, tests_passed state, error_flag state, visited))"

section \<open>An environment for evaluating the model\<close>

text \<open>
  Concrete collaborators, used where a statement is evaluated on an input.  The diff is
  the unified diff of two texts without a common line: the two file headers, one hunk
  header, every old line removed, every new line added.  The test process fails, the
  planner proposes nothing and no pattern matches, unless a field is overridden.
\<close>

definition sample_diff :: "string list \<Rightarrow> string list \<Rightarrow> string list" where
  "sample_diff a b =
     (if a = b then []
      else [''--- '', ''+++ '', ''@@''] @ map (\<lambda>l. CHR ''-'' # l) a @ map (\<lambda>l. CHR ''+'' # l) b)"

text \<open>A compact serialiser standing in for \<open>json.dumps\<close>; numbers are abbreviated.\<close>

definition DQ :: char where "DQ = CHR 0x22"

fun sample_dumps :: "json \<Rightarrow> string" where
  "sample_dumps JNull = ''null''"
| "sample_dumps (JBool b) = (if b then ''true'' else ''false'')"
| "sample_dumps (JInt i) = ''#''"
| "sample_dumps (JStr s) = DQ # s @ [DQ]"
| "sample_dumps (JArr xs) = ''['' @ join '','' (map sample_dumps xs) @ '']''"
| "sample_dumps (JObj kvs) =
     ''{'' @ join '','' (map (\<lambda>kv. DQ # fst kv @ [DQ] @ '':'' @ sample_dumps (snd kv)) kvs) @ ''}''"

definition sample_ext :: ext where
  "sample_ext =
     \<lparr>unified_diff = sample_diff,
      json_dumps = sample_dumps,
      json_loads = (\<lambda>s. if s = ''{}'' then Some (JObj []) else None),
      py_str = (\<lambda>v. []),
      re_search = (\<lambda>p s. False),
      name_error_symbol = (\<lambda>s. None),
      re_escape = (\<lambda>s. s),
      time_now = 0,
      summarize_files = (\<lambda>ws f. Inr []),
      plan_fix = (\<lambda>m l s ws f. Inr []),
      run_pytest = (\<lambda>ws f. Inr (1, [], []))\<rparr>"

definition passing_ext :: ext where
  "passing_ext = sample_ext\<lparr>run_pytest := (\<lambda>ws f. Inr (0, ''1 passed'', []))\<rparr>"

definition sample_fs :: fs where
  "sample_fs =
     \<lparr>files = [[''ws'', ''app'', ''main.py''] \<mapsto> ''return x - 1''],
      dirs = {[], [''ws''], [''ws'', ''app'']}\<rparr>"

text \<open>The same workspace with an artifact left by an earlier step.\<close>

definition stale_fs :: fs where
  "stale_fs =
     \<lparr>files = [[''ws'', ''app'', ''main.py''] \<mapsto> ''return x - 1'',
               [''ws'', ''.selfevolve'', ''edits.json''] \<mapsto> ''[stale]''],
      dirs = {[], [''ws''], [''ws'', ''app''], [''ws'', ''.selfevolve'']}\<rparr>"

text \<open>
  A workspace whose \<open>app/main.py\<close> is the single line \<open>--x\<close>, one whose memory file
  holds a JSON array, and collaborators that produce what the libraries produce on these
  inputs: the unified diff of that line against the empty text, and the parse of \<open>[]\<close>.
\<close>

definition dashed_fs :: fs where
  "dashed_fs =
     \<lparr>files = [[''ws'', ''app'', ''main.py''] \<mapsto> ''--x'' @ [LF]],
      dirs = {[], [''ws''], [''ws'', ''app'']}\<rparr>"

definition dashed_ext :: ext where
  "dashed_ext =
     sample_ext\<lparr>unified_diff := (\<lambda>a b.
        [''--- '', ''+++ '', ''@@ -1 +0,0 @@''] @ map (\<lambda>l. CHR ''-'' # l) a @ map (\<lambda>l. CHR ''+'' # l) b)\<rparr>"

definition array_fs :: fs where
  "array_fs =
     \<lparr>files = [[''ws'', ''agent'', ''memory.json''] \<mapsto> ''[]''],
      dirs = {[], [''ws''], [''ws'', ''agent'']}\<rparr>"

definition array_ext :: ext where
  "array_ext = sample_ext\<lparr>json_loads := (\<lambda>s. if s = ''[]'' then Some (JArr []) else None)\<rparr>"

section \<open>The iteration controller\<close>

text \<open>Unfolding one node execution of a run that ends normally.\<close>

lemma run_from_0_Inr [simp]: "run_from 0 g cur s f tr \<noteq> Inr r"
  by simp

lemma run_from_Suc_Inr:
  assumes "run_from (Suc n) g cur s f tr = Inr r"
  obtains s1 f1 where "g cur s f = Inr (s1, f1)"
    and "next_node cur s1 = None \<Longrightarrow> r = (s1, f1, tr @ [cur])"
    and "\<And>nx. next_node cur s1 = Some nx \<Longrightarrow> run_from n g nx s1 f1 (tr @ [cur]) = Inr r"
proof (cases "g cur s f")
  case (Inl e)
  with assms show ?thesis by simp
next
  case (Inr p)
  obtain s1 f1 where p: "p = (s1, f1)" by (cases p)
  show ?thesis
  proof (rule that[of s1 f1])
    show "g cur s f = Inr (s1, f1)" using Inr p by simp
    show "r = (s1, f1, tr @ [cur])" if "next_node cur s1 = None"
      using assms Inr p that by simp
    show "run_from n g nx s1 f1 (tr @ [cur]) = Inr r" if "next_node cur s1 = Some nx" for nx
      using assms Inr p that by simp
  qed
qed

lemma run_from_numeral:
  "run_from (numeral k) g cur state f visited =
     (case g cur state f of
        Inl e \<Rightarrow> Inl e
      | Inr (state', f') \<Rightarrow>
          (case next_node cur state' of
             None \<Rightarrow> Inr (state', f', visited @ [cur])
           | Some nxt \<Rightarrow> run_from (pred_numeral k) g nxt state' f' (visited @ [cur])))"
  by (simp add: numeral_eq_Suc)

text \<open>What each node of \<open>main\<close>'s graph does to the state.\<close>

lemma app_ReadContext:
  "app E ReadContext s f = Inr (s1, f1) \<Longrightarrow>
     \<exists>mem sums. s1 = s\<lparr>memory := Some mem, file_summaries := Some sums\<rparr> \<and> f1 = f"
  by (auto simp: app_def read_context_def split: sum.splits)

lemma app_PlanFix:
  "app E PlanFix s f = Inr (s1, f1) \<Longrightarrow> \<exists>ps. s1 = s\<lparr>patches := Some ps\<rparr> \<and> f1 = f"
  by (auto simp: app_def node_plan_fix_def split: sum.splits)

lemma app_ApplyPatch:
  "app E ApplyPatch s f = Inr (s1, f1) \<Longrightarrow>
     s1 = s\<lparr>error_flag := Some False\<rparr> \<or> (\<exists>e. s1 = s\<lparr>error_flag := Some True, message := Some e\<rparr>)"
  by (auto simp: app_def node_apply_patch_def apply_patch_effect_def Let_def
           split: sum.splits prod.splits if_splits)

lemma app_RunTests:
  "app E RunTests s f = Inr (s1, f1) \<Longrightarrow>
     \<exists>rc out err. run_pytest E (repo s) f = Inr (rc, out, err)
        \<and> s1 = s\<lparr>tests_passed := Some (rc = 0), test_log := Some (out @ [LF] @ err)\<rparr> \<and> f1 = f"
  by (auto simp: app_def node_run_tests_def split: sum.splits prod.splits)

lemma app_Reflect:
  "app E Reflect s f = Inr (s1, f1) \<Longrightarrow>
     \<exists>mem. s1 = s\<lparr>memory := Some mem, iter := Some (get_or (iter s) 0 + 1)\<rparr>"
  by (auto simp: app_def node_reflect_def split: sum.splits prod.splits)

lemma node_iter:
  "app E nd s f = Inr (s1, f1) \<Longrightarrow>
     iter s1 = (if nd = Reflect then Some (get_or (iter s) 0 + 1) else iter s)"
  by (cases nd) (auto dest: app_ReadContext app_PlanFix app_ApplyPatch app_RunTests app_Reflect)

text \<open>
  A run from \<open>PlanFix\<close> that ends without the fatal flag: with attempt index \<open>i\<close> and
  budget \<open>m\<close> it goes through \<open>Reflect\<close> until \<open>i + 1 \<ge> m\<close>, whatever the tests report.
\<close>

lemma cycle:
  assumes "run_from n (app E) PlanFix s f tr = Inr (s', f', tr')"
    and "iter s = Some i" and "max_iters s = Some m" and "test_passed s = None"
    and "error_flag s' \<noteq> Some True"
  shows "iter s' = Some (if i + 1 \<ge> m then i else m - 1)
       \<and> int (count_list tr' Reflect)
           = int (count_list tr Reflect) + ((if i + 1 \<ge> m then i else m - 1) - i)
       \<and> int (count_list tr' RunTests)
           = int (count_list tr RunTests) + ((if i + 1 \<ge> m then i else m - 1) - i) + 1
       \<and> (always_fails E \<longrightarrow> tests_passed s' = Some False)"
  using assms
proof (induction n arbitrary: s f tr i rule: less_induct)
  case (less n)
  from less.prems(1) obtain n1 where n: "n = Suc n1" by (cases n) auto
  from less.prems(1)[unfolded n] obtain s1 f1 where
    st1: "app E PlanFix s f = Inr (s1, f1)"
    and r1: "run_from n1 (app E) ApplyPatch s1 f1 (tr @ [PlanFix]) = Inr (s', f', tr')"
    by (elim run_from_Suc_Inr) auto
  from app_PlanFix[OF st1] obtain ps where s1: "s1 = s\<lparr>patches := Some ps\<rparr>" by auto
  from r1 obtain n2 where n1: "n1 = Suc n2" by (cases n1) auto
  from r1[unfolded n1] obtain s2 f2 where
    st2: "app E ApplyPatch s1 f1 = Inr (s2, f2)"
    and e2: "next_node ApplyPatch s2 = None \<Longrightarrow> (s', f', tr') = (s2, f2, tr @ [PlanFix] @ [ApplyPatch])"
    and r2: "\<And>nx. next_node ApplyPatch s2 = Some nx \<Longrightarrow>
               run_from n2 (app E) nx s2 f2 (tr @ [PlanFix] @ [ApplyPatch]) = Inr (s', f', tr')"
    by (elim run_from_Suc_Inr) auto
  from app_ApplyPatch[OF st2] have s2_cases:
    "s2 = s1\<lparr>error_flag := Some False\<rparr> \<or> (\<exists>e. s2 = s1\<lparr>error_flag := Some True, message := Some e\<rparr>)" .
  have s2: "s2 = s1\<lparr>error_flag := Some False\<rparr>"
  proof (rule ccontr)
    assume "s2 \<noteq> s1\<lparr>error_flag := Some False\<rparr>"
    with s2_cases obtain e where x: "s2 = s1\<lparr>error_flag := Some True, message := Some e\<rparr>" by auto
    then have "next_node ApplyPatch s2 = None" by (simp add: route_after_apply_def truthy_def)
    from e2[OF this] x less.prems(5) show False by simp
  qed
  then have "next_node ApplyPatch s2 = Some RunTests" by (simp add: route_after_apply_def truthy_def)
  from r2[OF this] have r2':
    "run_from n2 (app E) RunTests s2 f2 (tr @ [PlanFix] @ [ApplyPatch]) = Inr (s', f', tr')" .
  then obtain n3 where n2: "n2 = Suc n3" by (cases n2) auto
  from r2'[unfolded n2] obtain s3 f3 where
    st3: "app E RunTests s2 f2 = Inr (s3, f3)"
    and e3: "next_node RunTests s3 = None \<Longrightarrow>
               (s', f', tr') = (s3, f3, (tr @ [PlanFix] @ [ApplyPatch]) @ [RunTests])"
    and r3: "\<And>nx. next_node RunTests s3 = Some nx \<Longrightarrow>
               run_from n3 (app E) nx s3 f3 ((tr @ [PlanFix] @ [ApplyPatch]) @ [RunTests]) = Inr (s', f', tr')"
    by (elim run_from_Suc_Inr) auto
  from app_RunTests[OF st3] obtain rc out err where
    rp: "run_pytest E (repo s2) f2 = Inr (rc, out, err)"
    and s3: "s3 = s2\<lparr>tests_passed := Some (rc = 0), test_log := Some (out @ [LF] @ err)\<rparr>"
    by auto
  have fl: "always_fails E \<Longrightarrow> tests_passed s3 = Some False"
  proof -
    assume "always_fails E"
    with rp have "rc \<noteq> 0" unfolding always_fails_def by blast
    with s3 show ?thesis by simp
  qed
  show ?case
  proof (cases "i + 1 \<ge> m")
    case True
    then have "next_node RunTests s3 = None"
      using s3 s2 s1 less.prems(2,3,4) by (simp add: route_after_tests_def truthy_def get_or_def)
    from e3[OF this] have "s' = s3" "tr' = tr @ [PlanFix, ApplyPatch, RunTests]" by auto
    then show ?thesis using True fl s3 s2 s1 less.prems(2) by simp
  next
    case False
    then have "next_node RunTests s3 = Some Reflect"
      using s3 s2 s1 less.prems(2,3,4) by (simp add: route_after_tests_def truthy_def get_or_def)
    from r3[OF this] have r3':
      "run_from n3 (app E) Reflect s3 f3 (tr @ [PlanFix, ApplyPatch, RunTests]) = Inr (s', f', tr')"
      by simp
    then obtain n4 where n3: "n3 = Suc n4" by (cases n3) auto
    from r3'[unfolded n3] obtain s4 f4 where
      st4: "app E Reflect s3 f3 = Inr (s4, f4)"
      and r4: "run_from n4 (app E) PlanFix s4 f4 ((tr @ [PlanFix, ApplyPatch, RunTests]) @ [Reflect])
                 = Inr (s', f', tr')"
      by (elim run_from_Suc_Inr) auto
    from app_Reflect[OF st4] obtain mem where
      s4: "s4 = s3\<lparr>memory := Some mem, iter := Some (get_or (iter s3) 0 + 1)\<rparr>" by auto
    have i4: "iter s4 = Some (i + 1)" "max_iters s4 = Some m" "test_passed s4 = None"
      using s4 s3 s2 s1 less.prems(2,3,4) by (simp_all add: get_or_def)
    have "n4 < n" using n n1 n2 n3 by simp
    from less.IH[OF this r4 i4 less.prems(5)] show ?thesis
      using False by (auto split: if_splits)
  qed
qed

text \<open>
  A run from \<open>PlanFix\<close> with attempt index \<open>i\<close> and budget \<open>m\<close> executes at most
  \<open>4 * (m - 1 - i) + 3\<close> nodes: more allowance does not change its result.
\<close>

lemma cycle_fuel:
  assumes "iter s = Some i" and "max_iters s = Some m" and "test_passed s = None"
    and "d = nat (m - 1 - i)" and "n0 = 4 * d + 3" and "n0 \<le> n"
  shows "run_from n (app E) PlanFix s f tr = run_from n0 (app E) PlanFix s f tr"
  using assms
proof (induction d arbitrary: s f tr i n n0)
  case 0
  then have stop: "i + 1 \<ge> m" by simp
  from "0.prems"(5,6) obtain a where n: "n = Suc (Suc (Suc a))" "n0 = Suc (Suc (Suc 0))"
    by (cases n; simp; rename_tac n1; case_tac n1; simp; rename_tac n2; case_tac n2; simp)
  show ?case
  proof (cases "app E PlanFix s f")
    case (Inl e)
    then show ?thesis unfolding n by simp
  next
    case (Inr p1)
    obtain s1 f1 where p1: "p1 = (s1, f1)" by (cases p1)
    from app_PlanFix[OF Inr[unfolded p1]] obtain ps where s1: "s1 = s\<lparr>patches := Some ps\<rparr>" by auto
    show ?thesis
    proof (cases "app E ApplyPatch s1 f1")
      case (Inl e)
      with Inr p1 show ?thesis unfolding n by simp
    next
      case ap: (Inr p2)
      obtain s2 f2 where p2: "p2 = (s2, f2)" by (cases p2)
      from app_ApplyPatch[OF ap[unfolded p2]] s1 "0.prems"(1,2,3)
      have s2: "iter s2 = Some i" "max_iters s2 = Some m" "test_passed s2 = None" by auto
      show ?thesis
      proof (cases "route_after_apply s2")
        case None
        with Inr p1 ap p2 show ?thesis unfolding n by simp
      next
        case (Some nx)
        then have nx: "nx = RunTests" by (auto simp: route_after_apply_def split: if_splits)
        show ?thesis
        proof (cases "app E RunTests s2 f2")
          case (Inl e)
          with Inr p1 ap p2 Some nx show ?thesis unfolding n by simp
        next
          case rt: (Inr p3)
          obtain s3 f3 where p3: "p3 = (s3, f3)" by (cases p3)
          from app_RunTests[OF rt[unfolded p3]] s2
          have s3: "iter s3 = Some i" "max_iters s3 = Some m" by auto
          with stop have "route_after_tests s3 = None"
            by (simp add: route_after_tests_def get_or_def)
          with Inr p1 ap p2 Some nx rt p3 show ?thesis unfolding n by simp
        qed
      qed
    qed
  qed
next
  case (Suc d)
  then have go: "i + 1 < m" and d: "d = nat (m - 1 - (i + 1))" by simp_all
  define b where "b = 4 * d + 3"
  from Suc.prems(5) have n0: "n0 = Suc (Suc (Suc (Suc b)))" by (simp add: b_def)
  from Suc.prems(6) n0 obtain a where na: "n = Suc (Suc (Suc (Suc a)))" and ab: "b \<le> a"
    by (cases n; simp; rename_tac n1; case_tac n1; simp; rename_tac n2; case_tac n2; simp;
        rename_tac n3; case_tac n3; simp)
  note n = na n0
  show ?case
  proof (cases "app E PlanFix s f")
    case (Inl e)
    then show ?thesis unfolding n by simp
  next
    case (Inr p1)
    obtain s1 f1 where p1: "p1 = (s1, f1)" by (cases p1)
    from app_PlanFix[OF Inr[unfolded p1]] obtain ps where s1: "s1 = s\<lparr>patches := Some ps\<rparr>" by auto
    show ?thesis
    proof (cases "app E ApplyPatch s1 f1")
      case (Inl e)
      with Inr p1 show ?thesis unfolding n by simp
    next
      case ap: (Inr p2)
      obtain s2 f2 where p2: "p2 = (s2, f2)" by (cases p2)
      from app_ApplyPatch[OF ap[unfolded p2]] s1 Suc.prems(1,2,3)
      have s2: "iter s2 = Some i" "max_iters s2 = Some m" "test_passed s2 = None" by auto
      show ?thesis
      proof (cases "route_after_apply s2")
        case None
        with Inr p1 ap p2 show ?thesis unfolding n by simp
      next
        case (Some nx)
        then have nx: "nx = RunTests" by (auto simp: route_after_apply_def split: if_splits)
        show ?thesis
        proof (cases "app E RunTests s2 f2")
          case (Inl e)
          with Inr p1 ap p2 Some nx show ?thesis unfolding n by simp
        next
          case rt: (Inr p3)
          obtain s3 f3 where p3: "p3 = (s3, f3)" by (cases p3)
          from app_RunTests[OF rt[unfolded p3]] s2
          have s3: "iter s3 = Some i" "max_iters s3 = Some m" "test_passed s3 = None" by auto
          show ?thesis
          proof (cases "route_after_tests s3")
            case None
            with Inr p1 ap p2 Some nx rt p3 show ?thesis unfolding n by simp
          next
            case rs: (Some nx')
            then have nx': "nx' = Reflect" by (auto simp: route_after_tests_def split: if_splits)
            show ?thesis
            proof (cases "app E Reflect s3 f3")
              case (Inl e)
              with Inr p1 ap p2 Some nx rt p3 rs nx' show ?thesis unfolding n by simp
            next
              case rf: (Inr p4)
              obtain s4 f4 where p4: "p4 = (s4, f4)" by (cases p4)
              from app_Reflect[OF rf[unfolded p4]] s3
              have s4: "iter s4 = Some (i + 1)" "max_iters s4 = Some m" "test_passed s4 = None"
                by (auto simp: get_or_def)
              from Suc.IH[OF s4 d b_def ab]
              have "run_from a (app E) PlanFix s4 f4 (tr @ [PlanFix, ApplyPatch, RunTests, Reflect])
                  = run_from b (app E) PlanFix s4 f4 (tr @ [PlanFix, ApplyPatch, RunTests, Reflect])" .
              with Inr p1 ap p2 Some nx rt p3 rs nx' rf p4 show ?thesis unfolding n by simp
            qed
          qed
        qed
      qed
    qed
  qed
qed

lemma run_limit_irrelevant:
  assumes "12 \<le> n"
  shows "run_from n (app E) ReadContext (initial ws 3) f [] = run_from 12 (app E) ReadContext (initial ws 3) f []"
proof -
  from assms obtain a where n: "n = Suc a" and a: "11 \<le> a" by (cases n) auto
  show ?thesis
  proof (cases "app E ReadContext (initial ws 3) f")
    case (Inl e)
    then show ?thesis unfolding n by (simp add: run_from_numeral)
  next
    case (Inr p)
    obtain s1 f1 where p: "p = (s1, f1)" by (cases p)
    from app_ReadContext[OF Inr[unfolded p]]
    have s1: "iter s1 = Some 0" "max_iters s1 = Some 3" "test_passed s1 = None"
      by (auto simp: initial_def)
    have d: "(2::nat) = nat (3 - 1 - 0)" and e: "(11::nat) = 4 * 2 + 3" by simp_all
    from cycle_fuel[OF s1 d e a]
    have c: "run_from a (app E) PlanFix s1 f1 [ReadContext] = run_from 11 (app E) PlanFix s1 f1 [ReadContext]" .
    from Inr p c show ?thesis unfolding n by (simp add: run_from_numeral)
  qed
qed

text \<open>Evaluating a run in the sample environment.\<close>

lemmas eval_defs =
  main_run_def invoke_def RECURSION_LIMIT_def run_from_numeral app_def
  read_context_def node_plan_fix_def node_apply_patch_def apply_patch_effect_def
  node_run_tests_def node_reflect_def initial_def
  load_memory_def save_memory_def reflect_update_def memory_path_def
  exists_path_def read_text_def write_text_def mkdir_parents_def resolve_def resolve_step_def
  setdefault_def dict_get_def get_or_def py_list_def dedupe_def DEDUPE_KEY_def DEDUPE_MAX_def
  mined_rules_def name_error_rule_def PATTERNS_def
  route_after_apply_def route_after_tests_def truthy_def
  sample_ext_def sample_fs_def outcome_def Let_def

text \<open>
  C1.  The claim is that a test run that reports success sends the controller from
  \<open>RunTests\<close> straight to the end.  The code does not do that: \<open>node_run_tests\<close> stores
  the outcome under \<open>tests_passed\<close>, while \<open>_route_after_tests\<close> looks up \<open>test_passed\<close>,
  which is never set.  Whenever the test process exits with code 0, no fatal error is
  flagged and another attempt is left in the budget, the next node after \<open>RunTests\<close> is
  \<open>Reflect\<close>.  A run with a budget of three attempts whose tests pass from the first
  invocation goes through \<open>Reflect\<close> twice and stops with attempt index 2.
\<close>

theorem passing_tests_route_to_Reflect:
  assumes "run_pytest E (repo state) f = Inr (0, out, err)"
    and "error_flag state \<noteq> Some True"
    and "test_passed state = None"
    and "get_or (iter state) 0 + 1 < get_or (max_iters state) 3"
  shows "\<exists>state'. node_run_tests E state f = Inr (state', f)
           \<and> tests_passed state' = Some True
           \<and> next_node RunTests state' = Some Reflect"
  using assms by (simp add: node_run_tests_def route_after_tests_def truthy_def)

theorem passing_tests_route_to_Reflect_witness:
  "(\<exists>state'. node_run_tests passing_ext ((initial [''ws''] 3)\<lparr>error_flag := Some False\<rparr>) sample_fs
              = Inr (state', sample_fs)
           \<and> tests_passed state' = Some True
           \<and> next_node RunTests state' = Some Reflect)
   \<and> outcome (main_run passing_ext [''ws''] 3 sample_fs) =
       Some (Some 2, Some True, Some False,
             [ReadContext, PlanFix, ApplyPatch, RunTests, Reflect,
              PlanFix, ApplyPatch, RunTests, Reflect,
              PlanFix, ApplyPatch, RunTests])"
proof -
  have "outcome (main_run passing_ext [''ws''] 3 sample_fs) =
       Some (Some 2, Some True, Some False,
             [ReadContext, PlanFix, ApplyPatch, RunTests, Reflect,
              PlanFix, ApplyPatch, RunTests, Reflect,
              PlanFix, ApplyPatch, RunTests])"
    by (simp add: passing_ext_def eval_defs)
  with passing_tests_route_to_Reflect
          [of passing_ext "(initial [''ws''] 3)\<lparr>error_flag := Some False\<rparr>" sample_fs "''1 passed''" "[]"]
  show ?thesis
    by (simp add: passing_ext_def sample_ext_def initial_def get_or_def)
qed

text \<open>
  C2.  The claim is that with a budget of three attempts and tests that always fail the
  controller goes through \<open>Reflect\<close> three times and stops with attempt index 3.  The
  guard of \<open>_route_after_tests\<close> is \<open>iter + 1 >= max_iters\<close>, so the third test run ends
  the loop: in the sample environment the run executes \<open>Reflect\<close> twice and stops with
  attempt index 2.
\<close>

theorem three_reflections_counterexample:
  "always_fails sample_ext \<and>
   outcome (main_run sample_ext [''ws''] 3 sample_fs) =
     Some (Some 2, Some False, Some False,
           [ReadContext, PlanFix, ApplyPatch, RunTests, Reflect,
            PlanFix, ApplyPatch, RunTests, Reflect,
            PlanFix, ApplyPatch, RunTests])"
  by (simp add: always_fails_def eval_defs)

text \<open>
  C2, amended.  Every run of \<open>main\<close> with a budget of three attempts and tests that
  always fail, if it ends without an exception and without the fatal flag, has executed
  \<open>Reflect\<close> exactly twice and \<open>RunTests\<close> exactly three times, and stops with attempt
  index 2 and \<open>tests_passed\<close> false.  The attempt index goes up by one in \<open>Reflect\<close> and
  is left alone by every other node.  The run executes at most 12 nodes, so the graph
  library's recursion limit of 25 is not what ends it: any limit of at least 12 gives the
  same result.
\<close>

theorem failing_run_reflects_twice:
  assumes "main_run E ws 3 f = Inr (s', f', visited)"
    and "error_flag s' \<noteq> Some True"
    and "always_fails E"
  shows "iter s' = Some 2 \<and> tests_passed s' = Some False
       \<and> count_list visited Reflect = 2 \<and> count_list visited RunTests = 3
       \<and> (\<forall>nd s0 f0 s1 f1. app E nd s0 f0 = Inr (s1, f1) \<longrightarrow>
             iter s1 = (if nd = Reflect then Some (get_or (iter s0) 0 + 1) else iter s0))
       \<and> (\<forall>n \<ge> 12. run_from n (app E) ReadContext (initial ws 3) f [] = main_run E ws 3 f)"
proof -
  from assms(1) have r0:
    "run_from (Suc 24) (app E) ReadContext (initial ws 3) f [] = Inr (s', f', visited)"
    by (simp add: main_run_def invoke_def RECURSION_LIMIT_def)
  from r0 obtain s1 f1 where
    st1: "app E ReadContext (initial ws 3) f = Inr (s1, f1)"
    and r1: "run_from 24 (app E) PlanFix s1 f1 ([] @ [ReadContext]) = Inr (s', f', visited)"
    by (elim run_from_Suc_Inr) auto
  from app_ReadContext[OF st1] obtain mem sums where
    s1: "s1 = (initial ws 3)\<lparr>memory := Some mem, file_summaries := Some sums\<rparr>" by auto
  have i1: "iter s1 = Some 0" "max_iters s1 = Some 3" "test_passed s1 = None"
    using s1 by (simp_all add: initial_def)
  from cycle[OF r1 i1 assms(2)] assms(3)
  have a: "iter s' = Some 2 \<and> tests_passed s' = Some False
       \<and> count_list visited Reflect = 2 \<and> count_list visited RunTests = 3"
    by auto
  have l25: "main_run E ws 3 f = run_from 12 (app E) ReadContext (initial ws 3) f []"
    unfolding main_run_def invoke_def RECURSION_LIMIT_def
    by (rule run_limit_irrelevant) simp
  have b: "\<forall>n \<ge> 12. run_from n (app E) ReadContext (initial ws 3) f [] = main_run E ws 3 f"
  proof (intro allI impI)
    fix n :: nat
    assume "12 \<le> n"
    then have "run_from n (app E) ReadContext (initial ws 3) f []
                 = run_from 12 (app E) ReadContext (initial ws 3) f []"
      by (rule run_limit_irrelevant)
    then show "run_from n (app E) ReadContext (initial ws 3) f [] = main_run E ws 3 f"
      by (simp only: l25)
  qed
  from a b show ?thesis using node_iter by blast
qed

theorem failing_run_reflects_twice_witness:
  "\<exists>s' f' visited.
     main_run sample_ext [''ws''] 3 sample_fs = Inr (s', f', visited)
     \<and> error_flag s' \<noteq> Some True \<and> always_fails sample_ext
     \<and> iter s' = Some 2 \<and> tests_passed s' = Some False
     \<and> count_list visited Reflect = 2 \<and> count_list visited RunTests = 3"
proof -
  obtain s' f' visited where r: "main_run sample_ext [''ws''] 3 sample_fs = Inr (s', f', visited)"
    and e: "error_flag s' \<noteq> Some True"
    by (simp add: eval_defs)
  have af: "always_fails sample_ext"
    by (simp add: always_fails_def sample_ext_def)
  from failing_run_reflects_twice[OF r e af] r e af show ?thesis by blast
qed

section \<open>The patch gate\<close>

text \<open>Creating directories changes no file and removes no directory.\<close>

lemma mkdir_walk_files: "mkdir_walk f pre rest = (r, f') \<Longrightarrow> files f' = files f"
  by (induction rest arbitrary: f pre) (auto simp: Let_def split: if_splits)

lemma mkdir_walk_dirs_mono: "mkdir_walk f pre rest = (r, f') \<Longrightarrow> dirs f \<subseteq> dirs f'"
  by (induction rest arbitrary: f pre) (force simp: Let_def split: if_splits)+

lemma mkdir_walk_created:
  "mkdir_walk f pre rest = (None, f') \<Longrightarrow> rest \<noteq> [] \<Longrightarrow> resolve (pre @ rest) \<in> dirs f'"
proof (induction rest arbitrary: f pre)
  case Nil
  then show ?case by simp
next
  case (Cons s rest)
  let ?d = "resolve (pre @ [s])"
  let ?f1 = "f\<lparr>dirs := insert ?d (dirs f)\<rparr>"
  from Cons.prems(1) have nf: "?d \<notin> dom (files f)" and w: "mkdir_walk ?f1 (pre @ [s]) rest = (None, f')"
    by (auto simp: Let_def split: if_splits)
  show ?case
  proof (cases "rest = []")
    case True
    with w show ?thesis by auto
  next
    case False
    from Cons.IH[OF w False] show ?thesis by simp
  qed
qed

lemma mkdir_parents_files: "mkdir_parents f p = (r, f') \<Longrightarrow> files f' = files f"
  unfolding mkdir_parents_def by (rule mkdir_walk_files)

lemma mkdir_parents_dirs_mono: "mkdir_parents f p = (r, f') \<Longrightarrow> dirs f \<subseteq> dirs f'"
  unfolding mkdir_parents_def by (rule mkdir_walk_dirs_mono)

lemma mkdir_parents_created:
  "mkdir_parents f p = (None, f') \<Longrightarrow> p \<noteq> [] \<Longrightarrow> resolve p \<in> dirs f'"
  unfolding mkdir_parents_def using mkdir_walk_created[of f "[]" p f'] by simp

text \<open>One round of the validation loop, in the notions of the statements.\<close>

lemma validate_batch_Cons:
  "validate_batch E ws mtl (p # ps) tot tw f =
     (if \<not> fst (validate_schema p) then (Inl (InvalidPatchSchema (snd (validate_schema p))), f)
      else if \<not> is_safe_path ws (rel_path_of p) then (Inl (UnsafePath (rel_path_of p)), f)
      else (case mkdir_parents f (parent_of ws p) of
              (Some e, f1) \<Rightarrow> (Inl e, f1)
            | (None, f1) \<Rightarrow>
                if files f (target_of ws p) = None \<and> target_of ws p \<in> dirs f1 then (Inl OSError, f1)
                else if int (tot + changed_of E ws (files f) p) > mtl
                  then (Inl (ChangeBudgetExceeded (tot + changed_of E ws (files f) p) mtl), f1)
                else validate_batch E ws mtl ps (tot + changed_of E ws (files f) p)
                       (tw @ [(file_path_of ws p, new_text_of p)]) f1))"
proof -
  obtain ok msg where vs: "validate_schema p = (ok, msg)" by (cases "validate_schema p")
  obtain r f1 where mk: "mkdir_parents f (parent_of ws p) = (r, f1)"
    by (cases "mkdir_parents f (parent_of ws p)")
  have ff: "files f1 = files f" using mk by (rule mkdir_parents_files)
  show ?thesis
    using vs mk ff
    by (cases ok; cases r)
       (auto simp: Let_def rel_path_of_def parent_of_def file_path_of_def target_of_def
                   new_text_of_def changed_of_def exists_path_def read_text_def domIff
             split: option.splits)
qed

lemma validate_batch_files: "validate_batch E ws mtl ps tot tw f = (r, f') \<Longrightarrow> files f' = files f"
proof (induction ps arbitrary: tot tw f)
  case Nil
  then show ?case by simp
next
  case (Cons p ps)
  obtain r1 f1 where mk: "mkdir_parents f (parent_of ws p) = (r1, f1)"
    by (cases "mkdir_parents f (parent_of ws p)")
  have ff: "files f1 = files f" using mk by (rule mkdir_parents_files)
  from Cons.prems show ?case
    unfolding validate_batch_Cons mk
    using ff Cons.IH
    by (cases r1) (auto split: if_splits)
qed

lemma validate_batch_dirs_mono:
  "validate_batch E ws mtl ps tot tw f = (r, f') \<Longrightarrow> dirs f \<subseteq> dirs f'"
proof (induction ps arbitrary: tot tw f)
  case Nil
  then show ?case by simp
next
  case (Cons p ps)
  obtain r1 f1 where mk: "mkdir_parents f (parent_of ws p) = (r1, f1)"
    by (cases "mkdir_parents f (parent_of ws p)")
  have dd: "dirs f \<subseteq> dirs f1" using mk by (rule mkdir_parents_dirs_mono)
  from Cons.prems have "f' = f \<or> f' = f1
      \<or> (\<exists>tot' tw'. validate_batch E ws mtl ps tot' tw' f1 = (r, f'))"
    unfolding validate_batch_Cons mk
    by (cases r1) (auto split: if_splits)
  with dd Cons.IH show ?case by blast
qed

lemma validate_batch_rejects:
  assumes "i < length ps"
    and "\<not> fst (validate_schema (ps ! i)) \<or> \<not> is_safe_path ws (rel_path_of (ps ! i))
         \<or> int (tot + total_changed_of E ws (files f) (take (Suc i) ps)) > mtl"
  shows "\<exists>e f'. validate_batch E ws mtl ps tot tw f = (Inl e, f')"
  using assms
proof (induction ps arbitrary: i tot tw f)
  case Nil
  then show ?case by simp
next
  case (Cons p ps)
  obtain r1 f1 where mk: "mkdir_parents f (parent_of ws p) = (r1, f1)"
    by (cases "mkdir_parents f (parent_of ws p)")
  have ff: "files f1 = files f" using mk by (rule mkdir_parents_files)
  show ?case
  proof (cases i)
    case 0
    with Cons.prems(2) show ?thesis
      unfolding validate_batch_Cons mk
      by (cases r1) (auto simp: total_changed_of_def)
  next
    case (Suc j)
    with Cons.prems have j: "j < length ps"
      and bad: "\<not> fst (validate_schema (ps ! j)) \<or> \<not> is_safe_path ws (rel_path_of (ps ! j))
         \<or> int ((tot + changed_of E ws (files f) p) + total_changed_of E ws (files f1) (take (Suc j) ps)) > mtl"
      using ff by (auto simp: total_changed_of_def add.assoc)
    from Cons.IH[OF j bad] show ?thesis
      unfolding validate_batch_Cons mk
      by (cases r1) auto
  qed
qed

text \<open>
  What the two-phase structure of \<open>apply_edits\<close> gives, stated with the checks as the
  code performs them: if some patch of a batch has a bad schema, is refused by
  \<open>_is_safe_path\<close>, or brings the running total of \<open>_count_changed_lines\<close> over the
  limit at its position, then \<open>apply_edits\<close> raises and the files on disk are what they
  were before the call.
\<close>

lemma own_checks_rejection_writes_nothing:
  assumes "i < length ps"
    and "fails_validation E ws max_total_lines (files f) ps i"
  shows "(\<exists>e. fst (apply_edits E ws ps max_files max_total_lines f) = Inl e)
       \<and> files (snd (apply_edits E ws ps max_files max_total_lines f)) = files f"
proof -
  from assms(1) have ne: "ps \<noteq> []" by auto
  from assms have "\<exists>e f'. validate_batch E ws max_total_lines ps 0 [] f = (Inl e, f')"
    by (intro validate_batch_rejects) (auto simp: fails_validation_def)
  then obtain e f' where v: "validate_batch E ws max_total_lines ps 0 [] f = (Inl e, f')" by blast
  from validate_batch_files[OF v] have "files f' = files f" .
  with v ne show ?thesis
    by (simp add: apply_edits_def)
qed

text \<open>Definitions to unfold when the model is evaluated on an input.\<close>

lemmas path_defs =
  posix_str_def posix_parts_def posix_segments_def posix_root_def startswith_def path_str_def
  resolve_def resolve_step_def WHITELIST_ROOT_def is_safe_path_def

lemmas patch_defs =
  apply_edits_def validate_schema_def str_field_def is_str_def dict_get_def patch_def
  rel_path_of_def file_path_of_def parent_of_def target_of_def new_text_of_def
  changed_of_def total_changed_of_def fails_validation_def
  mkdir_parents_def exists_path_def read_text_def write_text_def
  count_changed_lines_def splitlines_def is_linebreak_def normalize_newlines_def
  replace_cr_def LF_def CR_def sample_diff_def sample_ext_def sample_fs_def Let_def

text \<open>
  C5.  The claim is that a batch holding a proposal with an unsafe path is rejected as a
  whole and that no file of it is written.  Whether a path is unsafe is decided by
  \<open>_is_safe_path\<close>, which compares resolved paths as strings (see C7): the path
  \<open>app/../app2/x.py\<close> resolves outside the \<open>app\<close> directory and is accepted.  For the
  batch of a valid patch of \<open>app/main.py\<close> followed by a patch with that path,
  \<open>apply_edits\<close> returns normally and both files are written.
\<close>

theorem batch_with_escaping_path_is_written:
  "\<not> is_under [''ws'', ''app''] (target_of [''ws''] (patch ''app/../app2/x.py'' ''x''))
   \<and> files sample_fs [''ws'', ''app'', ''main.py''] = Some ''return x - 1''
   \<and> fst (apply_edits sample_ext [''ws'']
            [patch ''app/main.py'' ''return x + 1'', patch ''app/../app2/x.py'' ''x''] 3 300 sample_fs)
        = Inr ()
   \<and> files (snd (apply_edits sample_ext [''ws'']
            [patch ''app/main.py'' ''return x + 1'', patch ''app/../app2/x.py'' ''x''] 3 300 sample_fs))
          [''ws'', ''app'', ''main.py''] = Some ''return x + 1''
   \<and> files (snd (apply_edits sample_ext [''ws'']
            [patch ''app/main.py'' ''return x + 1'', patch ''app/../app2/x.py'' ''x''] 3 300 sample_fs))
          [''ws'', ''app2'', ''x.py''] = Some ''x''"
  by (simp add: is_under_def patch_defs path_defs)

text \<open>The writing loop.\<close>

lemma write_text_dirs: "write_text f p c = Inr f' \<Longrightarrow> dirs f' = dirs f"
  by (auto simp: write_text_def Let_def split: if_splits)

lemma write_text_files: "write_text f p c = Inr f' \<Longrightarrow> files f' = (files f)(resolve p \<mapsto> c)"
  by (auto simp: write_text_def Let_def split: if_splits)

lemma write_all_dirs: "write_all tw f = (r, f') \<Longrightarrow> dirs f' = dirs f"
proof (induction tw arbitrary: f)
  case Nil
  then show ?case by simp
next
  case (Cons x tw)
  obtain p c where x: "x = (p, c)" by (cases x)
  show ?case
  proof (cases "write_text f p c")
    case (Inl e)
    with Cons.prems x show ?thesis by simp
  next
    case (Inr f1)
    with Cons.prems x have "write_all tw f1 = (r, f')" by simp
    from Cons.IH[OF this] write_text_dirs[OF Inr] show ?thesis by simp
  qed
qed

lemma write_all_error: "write_all tw f = (Inl e, f') \<Longrightarrow> e = OSError"
proof (induction tw arbitrary: f)
  case Nil
  then show ?case by simp
next
  case (Cons x tw)
  obtain p c where x: "x = (p, c)" by (cases x)
  show ?case
  proof (cases "write_text f p c")
    case (Inl e')
    then have "e' = OSError" by (auto simp: write_text_def Let_def split: if_splits)
    with Cons.prems x Inl show ?thesis by simp
  next
    case (Inr f1)
    with Cons.prems x have "write_all tw f1 = (Inl e, f')" by simp
    from Cons.IH[OF this] show ?thesis .
  qed
qed

lemma write_all_other:
  "write_all tw f = (r, f') \<Longrightarrow> t \<notin> (\<lambda>x. resolve (fst x)) ` set tw \<Longrightarrow> files f' t = files f t"
proof (induction tw arbitrary: f)
  case Nil
  then show ?case by simp
next
  case (Cons x tw)
  obtain p c where x: "x = (p, c)" by (cases x)
  from Cons.prems(2) x have ne: "t \<noteq> resolve p" and rest: "t \<notin> (\<lambda>x. resolve (fst x)) ` set tw"
    by auto
  show ?case
  proof (cases "write_text f p c")
    case (Inl e)
    with Cons.prems x show ?thesis by simp
  next
    case (Inr f1)
    with Cons.prems x have "write_all tw f1 = (r, f')" by simp
    from Cons.IH[OF this rest] write_text_files[OF Inr] ne show ?thesis by simp
  qed
qed

lemma write_all_last:
  assumes "write_all tw f = (Inr u, f')" and "i < length tw"
    and "resolve (fst (tw ! i)) \<notin> (\<lambda>x. resolve (fst x)) ` set (drop (Suc i) tw)"
  shows "files f' (resolve (fst (tw ! i))) = Some (snd (tw ! i))"
  using assms
proof (induction tw arbitrary: f i)
  case Nil
  then show ?case by simp
next
  case (Cons x tw)
  obtain p c where x: "x = (p, c)" by (cases x)
  from Cons.prems(1) x obtain f1 where w: "write_text f p c = Inr f1"
    and r: "write_all tw f1 = (Inr u, f')"
    by (cases "write_text f p c") auto
  show ?case
  proof (cases i)
    case 0
    from Cons.prems(3) 0 x have "resolve p \<notin> (\<lambda>x. resolve (fst x)) ` set tw"
      by simp
    from write_all_other[OF r this] write_text_files[OF w] 0 x show ?thesis by simp
  next
    case (Suc k)
    with Cons.prems(2) have k: "k < length tw" by simp
    from Cons.prems(3) Suc have
      "resolve (fst (tw ! k)) \<notin> (\<lambda>x. resolve (fst x)) ` set (drop (Suc k) tw)"
      by simp
    from Cons.IH[OF r k this] Suc show ?thesis by simp
  qed
qed

lemma validate_batch_Inr:
  "validate_batch E ws mtl ps tot tw f = (Inr tw', f') \<Longrightarrow>
     tw' = tw @ map (\<lambda>p. (file_path_of ws p, new_text_of p)) ps
     \<and> (\<forall>p \<in> set ps. fst (validate_schema p) \<and> is_safe_path ws (rel_path_of p))
     \<and> (ps \<noteq> [] \<longrightarrow> int (tot + total_changed_of E ws (files f) ps) \<le> mtl)"
proof (induction ps arbitrary: tot tw f)
  case Nil
  then show ?case by simp
next
  case (Cons p ps)
  obtain r1 f1 where mk: "mkdir_parents f (parent_of ws p) = (r1, f1)"
    by (cases "mkdir_parents f (parent_of ws p)")
  have ff: "files f1 = files f" using mk by (rule mkdir_parents_files)
  from Cons.prems have ok: "fst (validate_schema p)" "is_safe_path ws (rel_path_of p)"
    and bud: "int (tot + changed_of E ws (files f) p) \<le> mtl"
    and rec: "validate_batch E ws mtl ps (tot + changed_of E ws (files f) p)
                (tw @ [(file_path_of ws p, new_text_of p)]) f1 = (Inr tw', f')"
    unfolding validate_batch_Cons mk
    by (cases r1; auto split: if_splits)+
  from Cons.IH[OF rec] ok bud ff show ?case
    by (cases "ps = []") (auto simp: total_changed_of_def add.assoc)
qed

text \<open>
  C10, amended.  \<open>apply_edits\<close> does not ask the paths of a batch to be distinct.  When
  it returns normally, the changed-line counts of all patches, each taken against the
  files as they were on disk before the call, add up to no more than the limit, and the
  file a patch targets holds the newline-normalised new text of the last patch of the
  batch that targets it.
\<close>

theorem last_patch_for_a_path_wins:
  assumes "apply_edits E ws ps max_files max_total_lines f = (Inr u, f')"
    and "i < length ps"
    and "target_of ws (ps ! i) \<notin> target_of ws ` set (drop (Suc i) ps)"
  shows "files f' (target_of ws (ps ! i)) = Some (new_text_of (ps ! i))
       \<and> int (total_changed_of E ws (files f) ps) \<le> max_total_lines"
proof -
  from assms(2) have ne: "ps \<noteq> []" by auto
  let ?tw = "map (\<lambda>p. (file_path_of ws p, new_text_of p)) ps"
  from assms(1) ne obtain tw f1 where
    v: "validate_batch E ws max_total_lines ps 0 [] f = (Inr tw, f1)"
    and w: "write_all tw f1 = (Inr u, f')"
    by (auto simp: apply_edits_def split: if_splits prod.splits sum.splits)
  from validate_batch_Inr[OF v] ne have tw: "tw = ?tw"
    and bud: "int (total_changed_of E ws (files f) ps) \<le> max_total_lines"
    by auto
  have i: "i < length ?tw" using assms(2) by simp
  have later: "resolve (fst (?tw ! i)) \<notin> (\<lambda>x. resolve (fst x)) ` set (drop (Suc i) ?tw)"
    using assms(2,3) by (auto simp: target_of_def drop_map)
  from write_all_last[OF w[unfolded tw] i later] assms(2) bud show ?thesis
    by (simp add: target_of_def)
qed

theorem last_patch_for_a_path_wins_witness:
  "fst (apply_edits sample_ext [''ws'']
          [patch ''app/main.py'' ''return x'', patch ''app/main.py'' ''return x + 1''] 3 300 sample_fs)
     = Inr ()
   \<and> target_of [''ws''] (patch ''app/main.py'' ''return x'')
       = target_of [''ws''] (patch ''app/main.py'' ''return x + 1'')
   \<and> files (snd (apply_edits sample_ext [''ws'']
          [patch ''app/main.py'' ''return x'', patch ''app/main.py'' ''return x + 1''] 3 300 sample_fs))
        [''ws'', ''app'', ''main.py''] = Some ''return x + 1''
   \<and> total_changed_of sample_ext [''ws''] (files sample_fs)
         [patch ''app/main.py'' ''return x'', patch ''app/main.py'' ''return x + 1''] = 4"
proof -
  let ?ps = "[patch ''app/main.py'' ''return x'', patch ''app/main.py'' ''return x + 1'']"
  have e: "fst (apply_edits sample_ext [''ws''] ?ps 3 300 sample_fs) = Inr ()"
    by (simp add: patch_defs path_defs)
  then have h1: "apply_edits sample_ext [''ws''] ?ps 3 300 sample_fs
                   = (Inr (), snd (apply_edits sample_ext [''ws''] ?ps 3 300 sample_fs))"
    by (metis prod.collapse)
  have h2: "(1::nat) < length ?ps" by simp
  have h3: "target_of [''ws''] (?ps ! 1) \<notin> target_of [''ws''] ` set (drop (Suc 1) ?ps)" by simp
  have t: "target_of [''ws''] (?ps ! 1) = [''ws'', ''app'', ''main.py'']"
    "new_text_of (?ps ! 1) = ''return x + 1''"
    "target_of [''ws''] (patch ''app/main.py'' ''return x'')
       = target_of [''ws''] (patch ''app/main.py'' ''return x + 1'')"
    by (simp_all add: patch_defs path_defs)
  have c: "total_changed_of sample_ext [''ws''] (files sample_fs) ?ps = 4"
    by (simp add: patch_defs path_defs)
  from last_patch_for_a_path_wins[OF h1 h2 h3] e t c show ?thesis by simp
qed

text \<open>
  C10.  The claim ends with: the file's final content is the last proposal's new text.
  What is written is the new text with its line endings normalised; a patch whose
  \<open>new_text\<close> holds a carriage return leaves a file that differs from it.
\<close>

theorem raw_new_text_counterexample:
  "fst (apply_edits sample_ext [''ws'']
          [patch ''app/main.py'' (''a'' @ [CR, LF]), patch ''app/main.py'' (''b'' @ [CR, LF])]
          3 300 sample_fs) = Inr ()
   \<and> files (snd (apply_edits sample_ext [''ws'']
          [patch ''app/main.py'' (''a'' @ [CR, LF]), patch ''app/main.py'' (''b'' @ [CR, LF])]
          3 300 sample_fs)) [''ws'', ''app'', ''main.py''] = Some (''b'' @ [LF])
   \<and> str_field (patch ''app/main.py'' (''b'' @ [CR, LF])) ''new_text'' = ''b'' @ [CR, LF]
   \<and> ''b'' @ [LF] \<noteq> ''b'' @ [CR, LF]"
  by (simp add: patch_defs path_defs)

lemma validate_batch_parent_created:
  assumes "validate_batch E ws mtl ps tot tw f = (r, f')"
    and "i < length ps"
    and "validate_batch E ws mtl (take i ps) tot tw f = (Inr twi, fi)"
    and "fst (validate_schema (ps ! i))" and "is_safe_path ws (rel_path_of (ps ! i))"
    and "fst (mkdir_parents fi (parent_of ws (ps ! i))) = None"
    and "[] \<in> dirs f"
  shows "resolve (parent_of ws (ps ! i)) \<in> dirs f'"
  using assms
proof (induction ps arbitrary: i tot tw f)
  case Nil
  then show ?case by simp
next
  case (Cons p ps)
  obtain r1 f1 where mk: "mkdir_parents f (parent_of ws p) = (r1, f1)"
    by (cases "mkdir_parents f (parent_of ws p)")
  have dd: "dirs f \<subseteq> dirs f1" using mk by (rule mkdir_parents_dirs_mono)
  show ?case
  proof (cases i)
    case 0
    with Cons.prems(3) have fi: "fi = f" by simp
    with Cons.prems(6) 0 mk have r1: "r1 = None" by simp
    have in1: "resolve (parent_of ws p) \<in> dirs f1"
    proof (cases "parent_of ws p = []")
      case True
      with Cons.prems(7) dd show ?thesis by (auto simp: resolve_def)
    next
      case False
      from mkdir_parents_created[OF mk[unfolded r1] False] show ?thesis .
    qed
    from Cons.prems(1,4,5) 0 have "f' = f1
        \<or> (\<exists>tot' tw'. validate_batch E ws mtl ps tot' tw' f1 = (r, f'))"
      unfolding validate_batch_Cons mk r1
      by (auto split: if_splits)
    with validate_batch_dirs_mono have "dirs f1 \<subseteq> dirs f'" by blast
    with in1 0 show ?thesis by auto
  next
    case (Suc k)
    from Cons.prems(3) Suc have pre: "validate_batch E ws mtl (p # take k ps) tot tw f = (Inr twi, fi)"
      by simp
    from pre have ok: "fst (validate_schema p)" "is_safe_path ws (rel_path_of p)" "r1 = None"
      and nd: "\<not> (files f (target_of ws p) = None \<and> target_of ws p \<in> dirs f1)"
      and bud: "\<not> int (tot + changed_of E ws (files f) p) > mtl"
      and rec_pre: "validate_batch E ws mtl (take k ps) (tot + changed_of E ws (files f) p)
                (tw @ [(file_path_of ws p, new_text_of p)]) f1 = (Inr twi, fi)"
      unfolding validate_batch_Cons mk
      by (cases r1; auto split: if_splits)+
    from Cons.prems(1) ok nd bud have rec: "validate_batch E ws mtl ps (tot + changed_of E ws (files f) p)
                (tw @ [(file_path_of ws p, new_text_of p)]) f1 = (r, f')"
      unfolding validate_batch_Cons mk by simp
    from Cons.prems(2) Suc have k: "k < length ps" by simp
    from Cons.prems(7) dd have root: "[] \<in> dirs f1" by auto
    from Cons.IH[OF rec k rec_pre _ _ _ root] Cons.prems(4,5,6) Suc show ?thesis by simp
  qed
qed

text \<open>
  C9.  Directories are created while the batch is still being validated.  If validation
  reaches the patch at position \<open>i\<close> (the patches before it pass) and that patch passes
  the schema and path checks and its \<open>mkdir\<close>, then the parent directory of its target
  exists when \<open>apply_edits\<close> is left, also when the batch is rejected afterwards; and a
  batch rejected with a \<open>ValueError\<close> leaves every file as it was.
\<close>

theorem rejected_batch_keeps_new_directories:
  assumes "i < length ps"
    and "validate_batch E ws max_total_lines (take i ps) 0 [] f = (Inr twi, fi)"
    and "fst (validate_schema (ps ! i))"
    and "is_safe_path ws (rel_path_of (ps ! i))"
    and "fst (mkdir_parents fi (parent_of ws (ps ! i))) = None"
    and "[] \<in> dirs f"
    and "int (length ps) \<le> max_files"
  shows "resolve (parent_of ws (ps ! i)) \<in> dirs (snd (apply_edits E ws ps max_files max_total_lines f))
       \<and> ((\<exists>e. fst (apply_edits E ws ps max_files max_total_lines f) = Inl e \<and> is_ValueError e)
            \<longrightarrow> files (snd (apply_edits E ws ps max_files max_total_lines f)) = files f)"
proof -
  from assms(1) have ne: "ps \<noteq> []" by auto
  obtain r f1 where v: "validate_batch E ws max_total_lines ps 0 [] f = (r, f1)"
    by (cases "validate_batch E ws max_total_lines ps 0 [] f")
  from validate_batch_parent_created[OF v assms(1,2,3,4,5,6)]
  have in1: "resolve (parent_of ws (ps ! i)) \<in> dirs f1" .
  have ff: "files f1 = files f" using v by (rule validate_batch_files)
  show ?thesis
  proof (cases r)
    case (Inl e)
    with v ne assms(7) have "apply_edits E ws ps max_files max_total_lines f = (Inl e, f1)"
      by (simp add: apply_edits_def)
    with in1 ff show ?thesis by simp
  next
    case (Inr tw)
    obtain r2 f2 where w: "write_all tw f1 = (r2, f2)" by (cases "write_all tw f1")
    with v Inr ne assms(7) have a: "apply_edits E ws ps max_files max_total_lines f = (r2, f2)"
      by (simp add: apply_edits_def)
    from write_all_dirs[OF w] in1 have "resolve (parent_of ws (ps ! i)) \<in> dirs f2" by simp
    moreover have "\<not> (\<exists>e. r2 = Inl e \<and> is_ValueError e)"
      using write_all_error w by fastforce
    ultimately show ?thesis using a by auto
  qed
qed

theorem rejected_batch_keeps_new_directories_witness:
  "(0::nat) < length [patch ''app/pkg/util.py'' ''x'', patch ''app/main.py'' ''a\<newline>b\<newline>c'']
   \<and> [''ws'', ''app'', ''pkg''] \<notin> dirs sample_fs
   \<and> [''ws'', ''app'', ''pkg'']
        \<in> dirs (snd (apply_edits sample_ext [''ws'']
                  [patch ''app/pkg/util.py'' ''x'', patch ''app/main.py'' ''a\<newline>b\<newline>c''] 3 2 sample_fs))
   \<and> fst (apply_edits sample_ext [''ws'']
                  [patch ''app/pkg/util.py'' ''x'', patch ''app/main.py'' ''a\<newline>b\<newline>c''] 3 2 sample_fs)
        = Inl (ChangeBudgetExceeded 5 2)
   \<and> files (snd (apply_edits sample_ext [''ws'']
                  [patch ''app/pkg/util.py'' ''x'', patch ''app/main.py'' ''a\<newline>b\<newline>c''] 3 2 sample_fs))
        = files sample_fs"
proof -
  let ?ps = "[patch ''app/pkg/util.py'' ''x'', patch ''app/main.py'' ''a\<newline>b\<newline>c'']"
  have h1: "(0::nat) < length ?ps" by simp
  have h2: "validate_batch sample_ext [''ws''] 2 (take 0 ?ps) 0 [] sample_fs = (Inr [], sample_fs)"
    by simp
  have h3: "fst (validate_schema (?ps ! 0))"
    by (simp add: validate_schema_def patch_def is_str_def dict_get_def)
  have h4: "is_safe_path [''ws''] (rel_path_of (?ps ! 0))"
    by (simp add: patch_def rel_path_of_def str_field_def path_defs)
  have h5: "fst (mkdir_parents sample_fs (parent_of [''ws''] (?ps ! 0))) = None"
    by (simp add: patch_defs path_defs)
  have h6: "[] \<in> dirs sample_fs" by (simp add: sample_fs_def)
  have h7: "int (length ?ps) \<le> 3" by simp
  have p: "resolve (parent_of [''ws''] (?ps ! 0)) = [''ws'', ''app'', ''pkg'']"
    by (simp add: patch_defs path_defs)
  have e: "fst (apply_edits sample_ext [''ws''] ?ps 3 2 sample_fs) = Inl (ChangeBudgetExceeded 5 2)"
    by (simp add: patch_defs path_defs)
  have n: "[''ws'', ''app'', ''pkg''] \<notin> dirs sample_fs" by (simp add: sample_fs_def)
  from rejected_batch_keeps_new_directories[OF h1 h2 h3 h4 h5 h6 h7] p e n
  show ?thesis by simp
qed

text \<open>
  C6.  The claim is that the changed-line count of a patch is the number of added plus
  removed lines of the unified diff.  The counting loop skips every diff line that begins
  with \<open>+++\<close> or \<open>---\<close>, which is meant for the two file headers but also skips an added
  line whose text begins with \<open>++\<close> and a removed line whose text begins with \<open>--\<close>.
  For a file whose only line is \<open>--x\<close> and a patch that empties it, \<open>difflib\<close> yields the
  two headers, the hunk header and the removed line \<open>---x\<close>; the code counts 0 changed
  lines instead of 1, and the patch is applied under a limit of 0 lines.
\<close>

theorem dashed_line_not_counted:
  assumes "unified_diff E [''--x''] [] = [''--- '', ''+++ '', ''@@ -1 +0,0 @@'', ''---x'']"
  shows "count_changed_lines E (''--x'' @ [LF]) [] = 0
       \<and> fst (apply_edits E [''ws''] [patch ''app/main.py'' []] 3 0 dashed_fs) = Inr ()
       \<and> files (snd (apply_edits E [''ws''] [patch ''app/main.py'' []] 3 0 dashed_fs))
            [''ws'', ''app'', ''main.py''] = Some []"
proof -
  have sl: "splitlines [CHR ''-'', CHR ''-'', CHR ''x'', LF] = [''--x'']" "splitlines [] = []"
    by (simp_all add: splitlines_def is_linebreak_def LF_def CR_def)
  have c: "count_changed_lines E (''--x'' @ [LF]) [] = 0"
    using assms by (simp add: count_changed_lines_def sl startswith_def)
  have nn: "normalize_newlines [CHR ''-'', CHR ''-'', CHR ''x'', LF] = [CHR ''-'', CHR ''-'', CHR ''x'', LF]"
    by (simp add: normalize_newlines_def replace_cr_def LF_def CR_def)
  show ?thesis
    using c nn
    by (simp add: apply_edits_def validate_schema_def str_field_def is_str_def dict_get_def patch_def
                  mkdir_parents_def exists_path_def read_text_def write_text_def dashed_fs_def
                  replace_cr_def path_defs Let_def)
qed

theorem dashed_line_not_counted_witness:
  "unified_diff dashed_ext [''--x''] [] = [''--- '', ''+++ '', ''@@ -1 +0,0 @@'', ''---x'']
   \<and> count_changed_lines dashed_ext (''--x'' @ [LF]) [] = 0
   \<and> fst (apply_edits dashed_ext [''ws''] [patch ''app/main.py'' []] 3 0 dashed_fs) = Inr ()
   \<and> files (snd (apply_edits dashed_ext [''ws''] [patch ''app/main.py'' []] 3 0 dashed_fs))
            [''ws'', ''app'', ''main.py''] = Some []"
proof -
  have h: "unified_diff dashed_ext [''--x''] [] = [''--- '', ''+++ '', ''@@ -1 +0,0 @@'', ''---x'']"
    by (simp add: dashed_ext_def)
  from dashed_line_not_counted[OF h] h show ?thesis by simp
qed

text \<open>
  C7.  The claim is that a path is rejected exactly when it is not a relative path under
  \<open>app\<close> or does not resolve to a location inside the workspace's \<open>app\<close> directory.
  \<open>_is_safe_path\<close> compares the resolved path with the resolved \<open>app\<close> directory as
  strings, so a sibling directory whose name begins with \<open>app\<close> passes: the path
  \<open>app/../app2/x.py\<close> is accepted and the file is written outside \<open>app\<close>.
\<close>

theorem sibling_of_app_passes_path_check:
  "is_safe_path [''ws''] (rel_path_of (patch ''app/../app2/x.py'' ''x''))
   \<and> target_of [''ws''] (patch ''app/../app2/x.py'' ''x'') = [''ws'', ''app2'', ''x.py'']
   \<and> \<not> is_under [''ws'', ''app''] [''ws'', ''app2'', ''x.py'']
   \<and> fst (apply_edits sample_ext [''ws''] [patch ''app/../app2/x.py'' ''x''] 3 300 sample_fs) = Inr ()
   \<and> files (snd (apply_edits sample_ext [''ws''] [patch ''app/../app2/x.py'' ''x''] 3 300 sample_fs))
         [''ws'', ''app2'', ''x.py''] = Some ''x''"
  by (simp add: is_under_def patch_defs path_defs)

section \<open>The transparency artifact\<close>

text \<open>No path that passes \<open>_is_safe_path\<close> resolves to the artifact.\<close>

lemma resolve_append: "resolve (p @ q) = foldl resolve_step (resolve p) q"
  by (simp add: resolve_def)

lemma resolve_edits_path: "resolve (edits_path ws) = resolve ws @ [''.selfevolve'', ''edits.json'']"
  by (simp add: edits_path_def resolve_append resolve_step_def)

lemma resolve_app_root: "resolve (ws @ [WHITELIST_ROOT]) = resolve ws @ [''app'']"
  by (simp add: resolve_append resolve_step_def WHITELIST_ROOT_def)

lemma path_str_append:
  "q \<noteq> [] \<Longrightarrow> path_str (p @ q) = concat (map ((@) ''/'') p) @ concat (map ((@) ''/'') q)"
  by (simp add: path_str_def)

lemma startswith_append_same: "startswith (a @ x) (a @ y) = startswith x y"
  by (simp add: startswith_def)

lemma safe_path_not_edits:
  assumes "is_safe_path ws rel"
  shows "resolve (ws @ posix_segments rel) \<noteq> resolve (edits_path ws)"
proof
  assume eq: "resolve (ws @ posix_segments rel) = resolve (edits_path ws)"
  from assms have "startswith (path_str (resolve (ws @ posix_segments rel)))
                              (path_str (resolve (ws @ [WHITELIST_ROOT])))"
    by (auto simp: is_safe_path_def Let_def split: if_splits)
  then have "startswith (path_str (resolve ws @ [''.selfevolve'', ''edits.json'']))
                        (path_str (resolve ws @ [''app'']))"
    by (simp add: eq resolve_edits_path resolve_app_root)
  then have "startswith ''/.selfevolve/edits.json'' ''/app''"
    by (simp add: path_str_append startswith_append_same)
  then show False by (simp add: startswith_def)
qed

lemma apply_edits_keeps_edits_file:
  assumes "apply_edits E ws ps mf mtl f = (r, f')"
  shows "files f' (resolve (edits_path ws)) = files f (resolve (edits_path ws))"
proof (cases "ps = [] \<or> int (length ps) > mf")
  case True
  with assms show ?thesis by (auto simp: apply_edits_def split: if_splits)
next
  case False
  obtain rv f1 where v: "validate_batch E ws mtl ps 0 [] f = (rv, f1)"
    by (cases "validate_batch E ws mtl ps 0 [] f")
  have ff: "files f1 = files f" using v by (rule validate_batch_files)
  show ?thesis
  proof (cases rv)
    case (Inl e)
    with assms False v ff show ?thesis by (simp add: apply_edits_def)
  next
    case (Inr tw)
    with assms False v have w: "write_all tw f1 = (r, f')" by (simp add: apply_edits_def)
    from validate_batch_Inr[OF v[unfolded Inr]]
    have tw: "tw = map (\<lambda>p. (file_path_of ws p, new_text_of p)) ps"
      and safe: "\<forall>p \<in> set ps. is_safe_path ws (rel_path_of p)" by auto
    have "resolve (edits_path ws) \<notin> (\<lambda>x. resolve (fst x)) ` set tw"
      using safe safe_path_not_edits unfolding tw file_path_of_def by fastforce
    from write_all_other[OF w this] ff show ?thesis by simp
  qed
qed

text \<open>
  C4, amended.  A step of \<open>ApplyPatch\<close> with an empty batch changes nothing on disk.
  With a non-empty batch for which writing the artifact itself does not fail, the
  artifact \<open>.selfevolve/edits.json\<close> holds the serialised batch before \<open>apply_edits\<close> is
  called, \<open>apply_edits\<close> runs on the file system that results, and the artifact still
  holds the serialised batch when the step is over, whether \<open>apply_edits\<close> returned or
  raised.
\<close>

theorem apply_patch_records_nonempty_batch:
  assumes "get_or (patches state) [] = ps"
  shows "(ps = [] \<longrightarrow> apply_patch_effect E state f = (state\<lparr>error_flag := Some False\<rparr>, f))
       \<and> (ps \<noteq> [] \<longrightarrow>
            (\<forall>f1. write_edits_json E (repo state) ps f = (Inr (), f1) \<longrightarrow>
               (\<exists>payload. edits_payload E ps = Inr payload
                  \<and> files f1 (resolve (edits_path (repo state))) = Some (json_dumps E (JArr payload))
                  \<and> snd (apply_patch_effect E state f) = snd (apply_edits E (repo state) ps 3 300 f1)
                  \<and> files (snd (apply_patch_effect E state f)) (resolve (edits_path (repo state)))
                      = Some (json_dumps E (JArr payload)))))"
proof (intro conjI impI allI)
  assume "ps = []"
  with assms show "apply_patch_effect E state f = (state\<lparr>error_flag := Some False\<rparr>, f)"
    by (simp add: apply_patch_effect_def)
next
  fix f1
  assume ne: "ps \<noteq> []" and w: "write_edits_json E (repo state) ps f = (Inr (), f1)"
  let ?ws = "repo state"
  from w obtain f0 payload where
    pl: "edits_payload E ps = Inr payload"
    and wt: "write_text f0 (edits_path ?ws) (json_dumps E (JArr payload)) = Inr f1"
    by (auto simp: write_edits_json_def split: prod.splits option.splits sum.splits)
  from wt have a1: "files f1 (resolve (edits_path ?ws)) = Some (json_dumps E (JArr payload))"
    by (auto simp: write_text_def Let_def split: if_splits)
  obtain r2 f2 where ap: "apply_edits E ?ws ps 3 300 f1 = (r2, f2)"
    by (cases "apply_edits E ?ws ps 3 300 f1")
  have eff: "snd (apply_patch_effect E state f) = f2"
    using assms ne w ap by (cases r2) (simp_all add: apply_patch_effect_def)
  from apply_edits_keeps_edits_file[OF ap] a1
  have a2: "files f2 (resolve (edits_path ?ws)) = Some (json_dumps E (JArr payload))" by simp
  show "\<exists>payload. edits_payload E ps = Inr payload
          \<and> files f1 (resolve (edits_path ?ws)) = Some (json_dumps E (JArr payload))
          \<and> snd (apply_patch_effect E state f) = snd (apply_edits E ?ws ps 3 300 f1)
          \<and> files (snd (apply_patch_effect E state f)) (resolve (edits_path ?ws))
              = Some (json_dumps E (JArr payload))"
    using pl a1 a2 eff ap by auto
qed

theorem apply_patch_records_nonempty_batch_witness:
  "apply_patch_effect sample_ext ((initial [''ws''] 3)\<lparr>patches := Some []\<rparr>) stale_fs
     = ((initial [''ws''] 3)\<lparr>patches := Some [], error_flag := Some False\<rparr>, stale_fs)
   \<and> fst (write_edits_json sample_ext [''ws''] [patch ''../etc/passwd'' ''x''] stale_fs) = Inr ()
   \<and> error_flag (fst (apply_patch_effect sample_ext
          ((initial [''ws''] 3)\<lparr>patches := Some [patch ''../etc/passwd'' ''x'']\<rparr>) stale_fs)) = Some True
   \<and> files (snd (apply_patch_effect sample_ext
          ((initial [''ws''] 3)\<lparr>patches := Some [patch ''../etc/passwd'' ''x'']\<rparr>) stale_fs))
        [''ws'', ''.selfevolve'', ''edits.json'']
       = Some (sample_dumps (JArr [JObj [(''path'', JStr ''../etc/passwd''), (''newText'', JStr ''x'')]]))"
proof -
  let ?s0 = "(initial [''ws''] 3)\<lparr>patches := Some []\<rparr>"
  let ?ps = "[patch ''../etc/passwd'' ''x'']"
  let ?s1 = "(initial [''ws''] 3)\<lparr>patches := Some ?ps\<rparr>"
  have g0: "get_or (patches ?s0) [] = []" by (simp add: get_or_def)
  have g1: "get_or (patches ?s1) [] = ?ps" by (simp add: get_or_def)
  have r: "repo ?s1 = [''ws'']" by (simp add: initial_def)
  have w: "fst (write_edits_json sample_ext [''ws''] ?ps stale_fs) = Inr ()"
    by (simp add: write_edits_json_def edits_path_def to_str_def stale_fs_def patch_defs path_defs)
  then have w': "write_edits_json sample_ext (repo ?s1) ?ps stale_fs
                   = (Inr (), snd (write_edits_json sample_ext [''ws''] ?ps stale_fs))"
    unfolding r by (metis prod.collapse)
  have pl: "edits_payload sample_ext ?ps
              = Inr [JObj [(''path'', JStr ''../etc/passwd''), (''newText'', JStr ''x'')]]"
    by (simp add: to_str_def patch_defs path_defs)
  have ef: "error_flag (fst (apply_patch_effect sample_ext ?s1 stale_fs)) = Some True"
    by (simp add: apply_patch_effect_def get_or_def initial_def write_edits_json_def edits_path_def
                  to_str_def stale_fs_def patch_defs path_defs)
  have ep: "resolve (edits_path (repo ?s1)) = [''ws'', ''.selfevolve'', ''edits.json'']"
    by (simp add: initial_def edits_path_def path_defs)
  from apply_patch_records_nonempty_batch[OF g0, of sample_ext stale_fs]
  have a: "apply_patch_effect sample_ext ?s0 stale_fs = (?s0\<lparr>error_flag := Some False\<rparr>, stale_fs)"
    by simp
  from apply_patch_records_nonempty_batch[OF g1, of sample_ext stale_fs] w' pl ep
  have b: "files (snd (apply_patch_effect sample_ext ?s1 stale_fs)) [''ws'', ''.selfevolve'', ''edits.json'']
       = Some (sample_dumps (JArr [JObj [(''path'', JStr ''../etc/passwd''), (''newText'', JStr ''x'')]]))"
    by (auto simp: sample_ext_def)
  from a b w ef show ?thesis by simp
qed

text \<open>
  C4.  The claim includes the empty batch, which is said to overwrite a prior artifact.
  \<open>node_apply_patch\<close> calls \<open>write_edits_json\<close> only under \<open>if patches:\<close>; with an
  empty batch the artifact of an earlier step stays as it is.
\<close>

theorem empty_batch_keeps_artifact_counterexample:
  "files (snd (apply_patch_effect sample_ext ((initial [''ws''] 3)\<lparr>patches := Some []\<rparr>) stale_fs))
         (resolve (edits_path [''ws''])) = Some ''[stale]''
   \<and> json_dumps sample_ext (JArr []) = ''[]''
   \<and> ''[stale]'' \<noteq> ''[]''"
  by (simp add: apply_patch_effect_def get_or_def initial_def stale_fs_def sample_ext_def
                edits_path_def path_defs)

section \<open>The memory store\<close>

text \<open>
  C3.  The claim is that \<open>reflect_update\<close> keeps two rules that differ in any one of tag,
  pattern and advice.  \<open>_dedupe\<close> builds its key from the entries \<open>tag\<close>, \<open>regex\<close> and
  \<open>advice\<close> of an item, and a rule stores its pattern under \<open>pattern\<close>, so the pattern
  never enters the key: of two rules with the same tag and advice only the first is kept,
  whatever their patterns are.
\<close>

theorem reflect_merges_rules_differing_in_pattern:
  assumes "\<forall>regex. \<not> re_search E regex log" and "name_error_symbol E log = None"
  shows "reflect_update E
           (JObj [(''heuristics'', JArr [rule t p1 a, rule t p2 a]), (''fix_snippets'', JArr [])]) log
         = Inr (JObj [(''heuristics'', JArr [rule t p1 a]), (''fix_snippets'', JArr [])])"
  using assms
  by (simp add: reflect_update_def setdefault_def dict_get_def py_list_def mined_rules_def
                name_error_rule_def dedupe_def DEDUPE_KEY_def DEDUPE_MAX_def item_key_def rule_def
                hashable_def hash_key_def Let_def)

theorem reflect_merges_rules_differing_in_pattern_witness:
  "(\<forall>regex. \<not> re_search sample_ext regex ''1 failed'')
   \<and> name_error_symbol sample_ext ''1 failed'' = None
   \<and> ''AssertionError.*=='' \<noteq> ''assert .* == ''
   \<and> reflect_update sample_ext
         (JObj [(''heuristics'', JArr [rule ''off_by_one'' ''AssertionError.*=='' ''Check +/- 1'',
                                      rule ''off_by_one'' ''assert .* == '' ''Check +/- 1'']),
                (''fix_snippets'', JArr [])]) ''1 failed''
       = Inr (JObj [(''heuristics'', JArr [rule ''off_by_one'' ''AssertionError.*=='' ''Check +/- 1'']),
                    (''fix_snippets'', JArr [])])"
proof -
  have h1: "\<forall>regex. \<not> re_search sample_ext regex ''1 failed''" by (simp add: sample_ext_def)
  have h2: "name_error_symbol sample_ext ''1 failed'' = None" by (simp add: sample_ext_def)
  from reflect_merges_rules_differing_in_pattern[OF h1 h2] h1 h2 show ?thesis by simp
qed

text \<open>
  C8.  The claim is that \<open>load_memory\<close> never raises.  Its \<open>try\<close> block ends before the
  two \<open>setdefault\<close> calls, so a memory file that parses to a JSON value other than an
  object (an array, a string, a number, \<open>null\<close>) makes it raise \<open>AttributeError\<close>.
\<close>

theorem load_memory_raises_on_non_object:
  assumes "files f (resolve mem_path) = Some raw"
    and "normalize_newlines raw \<noteq> []"
    and "json_loads E (normalize_newlines raw) = Some v"
    and "\<not> is_dict v"
  shows "load_memory E f mem_path = Inl AttributeError"
  using assms
  by (cases v) (simp_all add: load_memory_def exists_path_def read_text_def is_dict_def domIff)

theorem load_memory_raises_on_non_object_witness:
  "files array_fs (resolve (memory_path [''ws''])) = Some ''[]''
   \<and> normalize_newlines ''[]'' \<noteq> []
   \<and> json_loads array_ext (normalize_newlines ''[]'') = Some (JArr [])
   \<and> \<not> is_dict (JArr [])
   \<and> load_memory array_ext array_fs (memory_path [''ws'']) = Inl AttributeError"
proof -
  have h1: "files array_fs (resolve (memory_path [''ws''])) = Some ''[]''"
    by (simp add: array_fs_def memory_path_def path_defs)
  have h2: "normalize_newlines ''[]'' \<noteq> []"
    by (simp add: normalize_newlines_def replace_cr_def CR_def LF_def)
  have h3: "json_loads array_ext (normalize_newlines ''[]'') = Some (JArr [])"
    by (simp add: array_ext_def normalize_newlines_def replace_cr_def CR_def LF_def)
  have h4: "\<not> is_dict (JArr [])" by (simp add: is_dict_def)
  from load_memory_raises_on_non_object[OF h1 h2 h3 h4] h1 h2 h3 h4 show ?thesis by simp
qed

end
